theory Spec2Isabelle
  imports Complex_Main "HOL-Library.Log_Nat"
begin

section \<open>The numeric model\<close>

text \<open>
  The program computes with JavaScript numbers, the double-precision values of IEEE 754.
  The type \<open>number\<close> holds the values themselves: the reals extended with the two
  infinities and NaN.  Its operations are the infinitely precise ones, which the operations
  on doubles round (section "Double-precision arithmetic"); they describe the program
  where no operation rounds.  Zero carries no sign (a nonzero finite value divided by zero
  gives the infinity of the dividend's sign).  The special values follow the language: NaN
  is absorbing, \<open>0 * Infinity\<close>, \<open>Infinity - Infinity\<close>, \<open>0 / 0\<close> and \<open>Infinity / Infinity\<close>
  are NaN, and every comparison with NaN is false.
\<close>

datatype number = Fin real | PInf | NInf | NaN

instantiation number :: "{plus, minus, times, uminus, inverse, abs, ord}"
begin

fun uminus_number :: "number \<Rightarrow> number" where
  "uminus_number (Fin x) = Fin (- x)"
| "uminus_number PInf = NInf"
| "uminus_number NInf = PInf"
| "uminus_number NaN = NaN"

fun plus_number :: "number \<Rightarrow> number \<Rightarrow> number" where
  "plus_number (Fin x) (Fin y) = Fin (x + y)"
| "plus_number NaN _ = NaN"
| "plus_number _ NaN = NaN"
| "plus_number PInf NInf = NaN"
| "plus_number NInf PInf = NaN"
| "plus_number PInf _ = PInf"
| "plus_number _ PInf = PInf"
| "plus_number NInf _ = NInf"
| "plus_number _ NInf = NInf"

definition minus_number :: "number \<Rightarrow> number \<Rightarrow> number" where
  "minus_number u v = u + (- v)"

fun times_number :: "number \<Rightarrow> number \<Rightarrow> number" where
  "times_number (Fin x) (Fin y) = Fin (x * y)"
| "times_number NaN _ = NaN"
| "times_number _ NaN = NaN"
| "times_number (Fin x) PInf = (if x = 0 then NaN else if 0 < x then PInf else NInf)"
| "times_number (Fin x) NInf = (if x = 0 then NaN else if 0 < x then NInf else PInf)"
| "times_number PInf (Fin y) = (if y = 0 then NaN else if 0 < y then PInf else NInf)"
| "times_number NInf (Fin y) = (if y = 0 then NaN else if 0 < y then NInf else PInf)"
| "times_number PInf PInf = PInf"
| "times_number PInf NInf = NInf"
| "times_number NInf PInf = NInf"
| "times_number NInf NInf = PInf"

fun divide_number :: "number \<Rightarrow> number \<Rightarrow> number" where
  "divide_number (Fin x) (Fin y) =
     (if y = 0 then (if x = 0 then NaN else if 0 < x then PInf else NInf) else Fin (x / y))"
| "divide_number NaN _ = NaN"
| "divide_number _ NaN = NaN"
| "divide_number (Fin x) PInf = Fin 0"
| "divide_number (Fin x) NInf = Fin 0"
| "divide_number PInf (Fin y) = (if 0 \<le> y then PInf else NInf)"
| "divide_number NInf (Fin y) = (if 0 \<le> y then NInf else PInf)"
| "divide_number PInf PInf = NaN"
| "divide_number PInf NInf = NaN"
| "divide_number NInf PInf = NaN"
| "divide_number NInf NInf = NaN"

fun inverse_number :: "number \<Rightarrow> number" where
  "inverse_number (Fin y) = (if y = 0 then PInf else Fin (1 / y))"
| "inverse_number PInf = Fin 0"
| "inverse_number NInf = Fin 0"
| "inverse_number NaN = NaN"

fun abs_number :: "number \<Rightarrow> number" where
  "abs_number (Fin x) = Fin \<bar>x\<bar>"
| "abs_number PInf = PInf"
| "abs_number NInf = PInf"
| "abs_number NaN = NaN"

fun less_number :: "number \<Rightarrow> number \<Rightarrow> bool" where
  "less_number (Fin x) (Fin y) = (x < y)"
| "less_number NaN _ = False"
| "less_number _ NaN = False"
| "less_number PInf _ = False"
| "less_number _ NInf = False"
| "less_number _ PInf = True"
| "less_number NInf _ = True"

fun less_eq_number :: "number \<Rightarrow> number \<Rightarrow> bool" where
  "less_eq_number (Fin x) (Fin y) = (x \<le> y)"
| "less_eq_number NaN _ = False"
| "less_eq_number _ NaN = False"
| "less_eq_number _ PInf = True"
| "less_eq_number NInf _ = True"
| "less_eq_number PInf _ = False"
| "less_eq_number _ NInf = False"

instance ..

end

text \<open>The predicates and coercions of the language.\<close>

fun isNaN :: "number \<Rightarrow> bool" where
  "isNaN NaN = True"
| "isNaN _ = False"

fun isFinite :: "number \<Rightarrow> bool" where
  "isFinite (Fin x) = True"
| "isFinite _ = False"

text \<open>\<open>truthy v\<close> is the boolean a number converts to: false for zero and NaN.\<close>

fun truthy :: "number \<Rightarrow> bool" where
  "truthy (Fin x) = (x \<noteq> 0)"
| "truthy NaN = False"
| "truthy _ = True"

text \<open>The functions of the \<open>Math\<close> object that the program calls.\<close>

definition Math_abs :: "number \<Rightarrow> number" where
  "Math_abs u = \<bar>u\<bar>"

fun Math_max :: "number \<Rightarrow> number \<Rightarrow> number" where
  "Math_max NaN _ = NaN"
| "Math_max _ NaN = NaN"
| "Math_max u v = (if u < v then v else u)"

fun Math_min :: "number \<Rightarrow> number \<Rightarrow> number" where
  "Math_min NaN _ = NaN"
| "Math_min _ NaN = NaN"
| "Math_min u v = (if v < u then v else u)"

fun Math_sqrt :: "number \<Rightarrow> number" where
  "Math_sqrt (Fin x) = (if x < 0 then NaN else Fin (sqrt x))"
| "Math_sqrt PInf = PInf"
| "Math_sqrt NInf = NaN"
| "Math_sqrt NaN = NaN"

fun Math_sin :: "number \<Rightarrow> number" where
  "Math_sin (Fin x) = Fin (sin x)"
| "Math_sin _ = NaN"

fun Math_acos :: "number \<Rightarrow> number" where
  "Math_acos (Fin x) = (if x < - 1 \<or> 1 < x then NaN else Fin (arccos x))"
| "Math_acos _ = NaN"

fun Math_log :: "number \<Rightarrow> number" where
  "Math_log (Fin x) = (if x < 0 then NaN else if x = 0 then NInf else Fin (ln x))"
| "Math_log PInf = PInf"
| "Math_log NInf = NaN"
| "Math_log NaN = NaN"

fun Math_floor :: "number \<Rightarrow> number" where
  "Math_floor (Fin x) = Fin (of_int \<lfloor>x\<rfloor>)"
| "Math_floor u = u"

text \<open>
  \<open>Math.pow\<close>: a zero exponent gives 1 for every base, a negative base with an exponent
  that is not an integer gives NaN, a zero base gives 0 or Infinity by the exponent's sign.
\<close>

definition is_integer :: "real \<Rightarrow> bool" where
  "is_integer e = (of_int \<lfloor>e\<rfloor> = e)"

definition is_odd_integer :: "real \<Rightarrow> bool" where
  "is_odd_integer e = (is_integer e \<and> odd \<lfloor>e\<rfloor>)"

fun Math_pow :: "number \<Rightarrow> number \<Rightarrow> number" where
  "Math_pow _ NaN = NaN"
| "Math_pow u (Fin e) =
     (if e = 0 then Fin 1
      else case u of
        NaN \<Rightarrow> NaN
      | PInf \<Rightarrow> (if 0 < e then PInf else Fin 0)
      | NInf \<Rightarrow> (if 0 < e then (if is_odd_integer e then NInf else PInf) else Fin 0)
      | Fin x \<Rightarrow>
          (if x = 0 then (if 0 < e then Fin 0 else PInf)
           else if 0 < x then Fin (x powr e)
           else if is_integer e then Fin (x powi \<lfloor>e\<rfloor>)
           else NaN))"
| "Math_pow u PInf =
     (case u of
        NaN \<Rightarrow> NaN
      | PInf \<Rightarrow> PInf
      | NInf \<Rightarrow> PInf
      | Fin x \<Rightarrow> (if 1 < \<bar>x\<bar> then PInf else if \<bar>x\<bar> = 1 then NaN else Fin 0))"
| "Math_pow u NInf =
     (case u of
        NaN \<Rightarrow> NaN
      | PInf \<Rightarrow> Fin 0
      | NInf \<Rightarrow> Fin 0
      | Fin x \<Rightarrow> (if 1 < \<bar>x\<bar> then Fin 0 else if \<bar>x\<bar> = 1 then NaN else PInf))"

section \<open>Double-precision arithmetic\<close>

text \<open>
  A finite double is \<open>m * 2^e\<close> with \<open>\<bar>m\<bar> < 2^53\<close> and \<open>- 1074 \<le> e \<le> 971\<close>.  \<open>expo x\<close> is the
  binary exponent of \<open>x\<close>, the integer \<open>e\<close> with \<open>2^e \<le> \<bar>x\<bar> < 2^(e + 1)\<close>; \<open>quantum x\<close> is the
  spacing of the doubles around \<open>x\<close> (that of the subnormal doubles below \<open>2^(- 1022)\<close>);
  \<open>nearest x\<close> is the multiple of the spacing nearest to \<open>x\<close>, the even multiple in a tie.
\<close>

definition expo :: "real \<Rightarrow> int" where
  "expo x = (if 1 \<le> \<bar>x\<bar> then bitlen \<lfloor>\<bar>x\<bar>\<rfloor> - 1 else - bitlen (\<lceil>1 / \<bar>x\<bar>\<rceil> - 1))"

definition round_even :: "real \<Rightarrow> int" where
  "round_even y =
     (let f = \<lfloor>y\<rfloor>; r = y - of_int f
      in if r < 1 / 2 then f else if 1 / 2 < r then f + 1 else if even f then f else f + 1)"

definition quantum :: "real \<Rightarrow> real" where
  "quantum x = 2 powi (max (expo x) (- 1022) - 52)"

definition nearest :: "real \<Rightarrow> real" where
  "nearest x = of_int (round_even (x / quantum x)) * quantum x"

text \<open>
  \<open>rd x\<close> is the double that the real \<open>x\<close> rounds to (round to nearest, ties to even): an
  infinity when the rounded magnitude reaches \<open>2^1024\<close>.
\<close>

definition huge :: real where
  "huge = 2 ^ 1024"

definition rd :: "real \<Rightarrow> number" where
  "rd x = (if huge \<le> nearest x then PInf
           else if nearest x \<le> - huge then NInf
           else Fin (nearest x))"

fun round_number :: "number \<Rightarrow> number" where
  "round_number (Fin x) = rd x"
| "round_number u = u"

text \<open>The reals that are finite doubles.\<close>

definition finite_double :: "real \<Rightarrow> bool" where
  "finite_double x = (rd x = Fin x)"

text \<open>
  The type \<open>double\<close> is the type of the program's numbers under their rounded
  operations: each of \<open>+\<close>, \<open>-\<close>, \<open>*\<close> and \<open>/\<close> rounds the infinitely precise result; negation,
  the absolute value and the comparisons are exact.  \<open>dbl x\<close> is the double that the numeric
  literal \<open>x\<close> denotes.
\<close>

datatype double = Double number

fun num_of :: "double \<Rightarrow> number" where
  "num_of (Double u) = u"

instantiation double :: "{plus, minus, times, uminus, inverse, abs, ord}"
begin

definition plus_double :: "double \<Rightarrow> double \<Rightarrow> double" where
  "plus_double x y = Double (round_number (num_of x + num_of y))"

definition minus_double :: "double \<Rightarrow> double \<Rightarrow> double" where
  "minus_double x y = Double (round_number (num_of x - num_of y))"

definition times_double :: "double \<Rightarrow> double \<Rightarrow> double" where
  "times_double x y = Double (round_number (num_of x * num_of y))"

definition divide_double :: "double \<Rightarrow> double \<Rightarrow> double" where
  "divide_double x y = Double (round_number (num_of x / num_of y))"

definition inverse_double :: "double \<Rightarrow> double" where
  "inverse_double x = Double (round_number (inverse (num_of x)))"

definition uminus_double :: "double \<Rightarrow> double" where
  "uminus_double x = Double (- num_of x)"

definition abs_double :: "double \<Rightarrow> double" where
  "abs_double x = Double \<bar>num_of x\<bar>"

definition less_double :: "double \<Rightarrow> double \<Rightarrow> bool" where
  "less_double x y = (num_of x < num_of y)"

definition less_eq_double :: "double \<Rightarrow> double \<Rightarrow> bool" where
  "less_eq_double x y = (num_of x \<le> num_of y)"

instance ..

end

definition dbl :: "real \<Rightarrow> double" where
  "dbl x = Double (rd x)"

section \<open>The fractional power of a 2x2 matrix\<close>

text \<open>The object \<open>{a, b, c, d}\<close> that \<open>getMatrixPower2x2\<close> returns.\<close>

record Mat2 =
  m_a :: number
  m_b :: number
  m_c :: number
  m_d :: number

definition EPS :: number where
  "EPS = Fin (1 / 1000000000)"

definition I2 :: Mat2 where
  "I2 = \<lparr>m_a = Fin 1, m_b = Fin 0, m_c = Fin 0, m_d = Fin 1\<rparr>"

definition getMatrixPower2x2 ::
  "number \<Rightarrow> number \<Rightarrow> number \<Rightarrow> number \<Rightarrow> number \<Rightarrow> Mat2" where
  "getMatrixPower2x2 a b c d t =
     (let trace = a + d;
          det = a * d - b * c;
          delta = trace * trace - Fin 4 * det;
          M = \<lparr>m_a = a, m_b = b, m_c = c, m_d = d\<rparr>
      in if delta < - EPS then
           (let r = Math_sqrt det;
                theta = Math_acos (Math_max (Fin (- 1)) (Math_min (Fin 1) (trace / (Fin 2 * r))));
                rt = Math_pow r t;
                sinTheta = Math_sin theta
            in if Math_abs sinTheta < EPS then I2
               else
                 (let c1 = Math_sin ((Fin 1 - t) * theta) / sinTheta;
                      c2 = Math_sin (t * theta) / sinTheta;
                      f1 = rt * c1;
                      f2 = rt * c2 / r
                  in \<lparr>m_a = f1 * m_a I2 + f2 * m_a M,
                      m_b = f1 * m_b I2 + f2 * m_b M,
                      m_c = f1 * m_c I2 + f2 * m_c M,
                      m_d = f1 * m_d I2 + f2 * m_d M\<rparr>))
         else
           (let sqrtDelta = Math_sqrt delta;
                l1 = (trace - sqrtDelta) / Fin 2;
                l2 = (trace + sqrtDelta) / Fin 2
            in if Math_abs (l1 - l2) < EPS then
                 (let lt = Math_pow l1 t;
                      invL1 = Fin 1 / l1;
                      Ka = m_a M * invL1 - Fin 1;
                      Kb = m_b M * invL1;
                      Kc = m_c M * invL1;
                      Kd = m_d M * invL1 - Fin 1
                  in \<lparr>m_a = lt * (Fin 1 + t * Ka),
                      m_b = lt * (Fin 0 + t * Kb),
                      m_c = lt * (Fin 0 + t * Kc),
                      m_d = lt * (Fin 1 + t * Kd)\<rparr>)
               else
                 (let l1t = Math_pow l1 t;
                      l2t = Math_pow l2 t;
                      invDiff = Fin 1 / (l2 - l1);
                      c1 = (l1t * l2 - l2t * l1) * invDiff;
                      c2 = (l2t - l1t) * invDiff
                  in \<lparr>m_a = c1 + c2 * m_a M,
                      m_b = Fin 0 + c2 * m_b M,
                      m_c = Fin 0 + c2 * m_c M,
                      m_d = c1 + c2 * m_d M\<rparr>)))"

section \<open>Points, quadrilaterals and 3x3 matrices\<close>

text \<open>
  The interfaces \<open>Point\<close> (fields \<open>x\<close>, \<open>y\<close>) and \<open>Quad\<close> (fields \<open>p1\<close> to \<open>p4\<close>:
  top-left, top-right, bottom-right, bottom-left).  The field names carry a prefix so
  that they do not take the variable names of the functions below.
\<close>

record Point =
  pt_x :: number
  pt_y :: number

record Quad =
  qp1 :: Point
  qp2 :: Point
  qp3 :: Point
  qp4 :: Point


definition identity3 :: "number list" where
  "identity3 = [Fin 1, Fin 0, Fin 0, Fin 0, Fin 1, Fin 0, Fin 0, Fin 0, Fin 1]"



section \<open>The linear solver\<close>

text \<open>
  \<open>solveLinearSystem\<close> is private to its module and is called once, by
  \<open>computeHomography\<close>, with an 8x8 array of distinct rows and a vector of length 8, so
  every index below is in range.  The arrays are updated in place; the model passes
  them on.  Each \<open>for\<close> loop over a counter is a \<open>fold\<close> over the list of its values,
  and the outer loop, which can return early, is a recursion over that list.
\<close>

type_synonym matrix = "number list list"

definition setA :: "matrix \<Rightarrow> nat \<Rightarrow> nat \<Rightarrow> number \<Rightarrow> matrix" where
  "setA A r k v = A[r := (A ! r)[k := v]]"

text \<open>The search for the pivot row: the largest magnitude in column \<open>i\<close> from row \<open>i\<close> down.\<close>

definition findPivot :: "matrix \<Rightarrow> nat \<Rightarrow> nat \<Rightarrow> number \<times> nat" where
  "findPivot A n i =
     fold (\<lambda>k (maxEl, maxRow).
             if maxEl < Math_abs (A ! k ! i) then (Math_abs (A ! k ! i), k) else (maxEl, maxRow))
          [Suc i..<n] (Math_abs (A ! i ! i), i)"

text \<open>The exchange of rows \<open>i\<close> and \<open>maxRow\<close>, from column \<open>i\<close> on, and of the two entries of \<open>B\<close>.\<close>

definition swapRows :: "nat \<Rightarrow> nat \<Rightarrow> nat \<Rightarrow> matrix \<Rightarrow> matrix" where
  "swapRows n i maxRow A =
     fold (\<lambda>k A. let tmp = A ! maxRow ! k;
                     A1 = setA A maxRow k (A ! i ! k)
                 in setA A1 i k tmp)
          [i..<n] A"

definition swapB :: "nat \<Rightarrow> nat \<Rightarrow> number list \<Rightarrow> number list" where
  "swapB i maxRow B = (let tmp = B ! maxRow; B1 = B[maxRow := B ! i] in B1[i := tmp])"

text \<open>The elimination of column \<open>i\<close> from one row \<open>k\<close>, and from all rows below row \<open>i\<close>.\<close>

definition elimRow :: "nat \<Rightarrow> nat \<Rightarrow> nat \<Rightarrow> matrix \<times> number list \<Rightarrow> matrix \<times> number list" where
  "elimRow n i k AB =
     (let A = fst AB; B = snd AB;
          c = - (A ! k ! i) / (A ! i ! i);
          A' = fold (\<lambda>j A. if i = j then setA A k j (Fin 0)
                            else setA A k j (A ! k ! j + c * (A ! i ! j)))
                    [i..<n] A
      in (A', B[k := B ! k + c * (B ! i)]))"

definition eliminate :: "nat \<Rightarrow> nat \<Rightarrow> matrix \<times> number list \<Rightarrow> matrix \<times> number list" where
  "eliminate n i AB = fold (elimRow n i) [Suc i..<n] AB"

text \<open>
  The forward pass.  \<open>None\<close> is the early return of the source (the pivot of some step
  is below \<open>1e-10\<close>), on which the solver returns the zero vector.
\<close>

fun forwardElim :: "nat \<Rightarrow> nat list \<Rightarrow> matrix \<times> number list \<Rightarrow> (matrix \<times> number list) option" where
  "forwardElim n [] AB = Some AB"
| "forwardElim n (i # is) AB =
     (let A = fst AB; B = snd AB;
          maxEl = fst (findPivot A n i);
          maxRow = snd (findPivot A n i)
      in if maxEl < Fin (1 / 10000000000) then None
         else forwardElim n is (eliminate n i (swapRows n i maxRow A, swapB i maxRow B)))"

text \<open>Back substitution, from the last row up.\<close>

definition backSubst :: "nat \<Rightarrow> matrix \<Rightarrow> number list \<Rightarrow> number list" where
  "backSubst n A B =
     fold (\<lambda>i X. let sum = fold (\<lambda>j sum. sum + A ! i ! j * X ! j) [Suc i..<n] (Fin 0)
                 in X[i := (B ! i - sum) / (A ! i ! i)])
          (rev [0..<n]) (replicate n (Fin 0))"

definition solveLinearSystem :: "matrix \<Rightarrow> number list \<Rightarrow> number list" where
  "solveLinearSystem A B =
     (let n = length B
      in case forwardElim n [0..<n] (A, B) of
           None \<Rightarrow> replicate n (Fin 0)
         | Some AB \<Rightarrow> backSubst n (fst AB) (snd AB))"

section \<open>The homography of a quadrilateral\<close>

text \<open>
  \<open>computeHomography\<close>: the eight equations, the solver, and the \<open>try\<close> block: a
  solution with an entry that is NaN or not finite throws, and the handler returns the
  identity.
\<close>

definition systems :: "number \<Rightarrow> number \<Rightarrow> Quad \<Rightarrow> number list list" where
  "systems srcWidth srcHeight dst =
     (let x0 = pt_x (qp1 dst); y0 = pt_y (qp1 dst);
          x1 = pt_x (qp2 dst); y1 = pt_y (qp2 dst);
          x2 = pt_x (qp3 dst); y2 = pt_y (qp3 dst);
          x3 = pt_x (qp4 dst); y3 = pt_y (qp4 dst);
          w = srcWidth;
          h = srcHeight
      in [[Fin 0, Fin 0, Fin 1, Fin 0, Fin 0, Fin 0, - Fin 0 * x0, - Fin 0 * x0, x0],
          [Fin 0, Fin 0, Fin 0, Fin 0, Fin 0, Fin 1, - Fin 0 * y0, - Fin 0 * y0, y0],
          [w, Fin 0, Fin 1, Fin 0, Fin 0, Fin 0, - w * x1, - Fin 0 * x1, x1],
          [Fin 0, Fin 0, Fin 0, w, Fin 0, Fin 1, - w * y1, - Fin 0 * y1, y1],
          [w, h, Fin 1, Fin 0, Fin 0, Fin 0, - w * x2, - h * x2, x2],
          [Fin 0, Fin 0, Fin 0, w, h, Fin 1, - w * y2, - h * y2, y2],
          [Fin 0, h, Fin 1, Fin 0, Fin 0, Fin 0, - Fin 0 * x3, - h * x3, x3],
          [Fin 0, Fin 0, Fin 0, Fin 0, h, Fin 1, - Fin 0 * y3, - h * y3, y3]])"

definition computeHomography :: "number \<Rightarrow> number \<Rightarrow> Quad \<Rightarrow> number list" where
  "computeHomography srcWidth srcHeight dst =
     (let A = map (take 8) (systems srcWidth srcHeight dst);
          B = map (\<lambda>r. r ! 8) (systems srcWidth srcHeight dst);
          X = solveLinearSystem A B
      in if list_ex (\<lambda>val. isNaN val \<or> \<not> isFinite val) X
         then [Fin 1, Fin 0, Fin 0, Fin 0, Fin 1, Fin 0, Fin 0, Fin 0, Fin 1]
         else X @ [Fin 1])"

section \<open>The zoom loop\<close>

text \<open>
  \<open>getQuadArea\<close>, as the source writes it: the fourth product of the first sum is
  \<open>p4.y * p1.x\<close>.
\<close>

definition getQuadArea :: "Point \<Rightarrow> Point \<Rightarrow> Point \<Rightarrow> Point \<Rightarrow> number" where
  "getQuadArea p1 p2 p3 p4 =
     Fin (1 / 2) * Math_abs
       (pt_x p1 * pt_y p2 + pt_x p2 * pt_y p3 + pt_x p3 * pt_y p4 + pt_y p4 * pt_x p1
        - (pt_y p1 * pt_x p2 + pt_y p2 * pt_x p3 + pt_y p3 * pt_x p4 + pt_y p4 * pt_x p1))"

text \<open>
  The part of \<open>renderCanvas\<close> that derives the loop scale: the quad in image pixels
  (\<open>qPoints\<close>), the two areas, and \<open>scale\<close>, which is stored as the loop scale.
\<close>

definition qPoints :: "number \<Rightarrow> number \<Rightarrow> Quad \<Rightarrow> Quad" where
  "qPoints iw ih quad =
     \<lparr>qp1 = \<lparr>pt_x = pt_x (qp1 quad) * iw, pt_y = pt_y (qp1 quad) * ih\<rparr>,
      qp2 = \<lparr>pt_x = pt_x (qp2 quad) * iw, pt_y = pt_y (qp2 quad) * ih\<rparr>,
      qp3 = \<lparr>pt_x = pt_x (qp3 quad) * iw, pt_y = pt_y (qp3 quad) * ih\<rparr>,
      qp4 = \<lparr>pt_x = pt_x (qp4 quad) * iw, pt_y = pt_y (qp4 quad) * ih\<rparr>\<rparr>"

definition areaQuad :: "number \<Rightarrow> number \<Rightarrow> Quad \<Rightarrow> number" where
  "areaQuad iw ih quad =
     getQuadArea (qp1 (qPoints iw ih quad)) (qp2 (qPoints iw ih quad))
                 (qp3 (qPoints iw ih quad)) (qp4 (qPoints iw ih quad))"

definition loopScale :: "number \<Rightarrow> number \<Rightarrow> Quad \<Rightarrow> number" where
  "loopScale iw ih quad =
     (let areaFull = iw * ih
      in Math_sqrt (areaFull / Math_max (Fin 1) (areaQuad iw ih quad)))"

text \<open>The phase of a frame: the override of an export, or the logarithm of the zoom level.\<close>

definition renderPhase :: "number \<Rightarrow> number \<Rightarrow> number option \<Rightarrow> number" where
  "renderPhase scale zoomLevel phaseOverride =
     (let p = (case phaseOverride of
                 Some q \<Rightarrow> q
               | None \<Rightarrow>
                   (let logS = Math_log scale
                    in if Fin (1 / 10000) < logS
                       then Math_log (Math_max (Fin 1) zoomLevel) / logS
                       else Fin 0))
      in p - Math_floor p)"

datatype AnimationDirection = IN | OUT | STOP

text \<open>
  The export of \<open>generateGif\<close>: the duration, the number of frames, the delay between
  frames, and the phase handed to \<open>renderCanvas\<close> for frame \<open>i\<close>.
\<close>

definition targetFPS :: number where
  "targetFPS = Fin 30"

definition exportDuration :: "number \<Rightarrow> number \<Rightarrow> bool \<Rightarrow> number" where
  "exportDuration scale zoomSpeed constantSpeed =
     (let speed = (if truthy zoomSpeed then zoomSpeed else Fin 1);
          duration = (if constantSpeed then Fin 2 / speed
                      else Math_log (Math_max (Fin (11 / 10)) scale) / speed)
      in Math_max (Fin (2 / 10)) (Math_min duration (Fin 10)))"

definition totalFrames :: "number \<Rightarrow> number \<Rightarrow> bool \<Rightarrow> number" where
  "totalFrames scale zoomSpeed constantSpeed =
     Math_max (Fin 10) (Math_floor (exportDuration scale zoomSpeed constantSpeed * targetFPS))"

definition delay :: number where
  "delay = Math_floor (Fin 1000 / targetFPS)"

definition exportPhase :: "number \<Rightarrow> bool \<Rightarrow> AnimationDirection \<Rightarrow> number \<Rightarrow> number \<Rightarrow> number" where
  "exportPhase scale constantSpeed desiredDirection i frames =
     (let t = i / frames;
          p = (if constantSpeed
               then (let Z = Fin 1 + (scale - Fin 1) * t in Math_log Z / Math_log scale)
               else t)
      in if desiredDirection = OUT then Fin 1 - p else p)"

text \<open>The quad a new session starts with (\<open>INITIAL_QUAD\<close>), in normalised coordinates.\<close>

definition INITIAL_QUAD :: Quad where
  "INITIAL_QUAD =
     \<lparr>qp1 = \<lparr>pt_x = Fin (25 / 100), pt_y = Fin (25 / 100)\<rparr>,
      qp2 = \<lparr>pt_x = Fin (75 / 100), pt_y = Fin (25 / 100)\<rparr>,
      qp3 = \<lparr>pt_x = Fin (75 / 100), pt_y = Fin (75 / 100)\<rparr>,
      qp4 = \<lparr>pt_x = Fin (25 / 100), pt_y = Fin (75 / 100)\<rparr>\<rparr>"

text \<open>
  One tick of the animation loop: the update of the zoom level and its wrap.  The
  level moves only while a direction is set, no export runs and an image is loaded;
  \<open>limit\<close> is the loop scale of the last rendered frame and \<open>dt\<close> the time since the
  last tick, in seconds.
\<close>

definition tick ::
  "bool \<Rightarrow> bool \<Rightarrow> bool \<Rightarrow> AnimationDirection \<Rightarrow> double \<Rightarrow> double \<Rightarrow> double \<Rightarrow> double \<Rightarrow> double" where
  "tick isExporting imageLoaded constantSpeed direction speed dt limit zoomLevel =
     (if direction \<noteq> STOP \<and> \<not> isExporting \<and> imageLoaded then
        (if constantSpeed then
           (let step = speed * dt * dbl (5 / 10)
            in if direction = IN then
                 (let z = zoomLevel + step * (limit - dbl 1)
                  in if limit \<le> z then dbl 1 + (z - limit) else z)
               else
                 (let z = zoomLevel - step * (limit - dbl 1)
                  in if z < dbl 1 then limit - (dbl 1 - z) else z))
         else
           (let step = dbl 1 + speed * dt
            in if direction = IN then
                 (let z = zoomLevel * step
                  in if limit \<le> z then z / limit else z)
               else
                 (let z = zoomLevel / step
                  in if z < dbl 1 then z * limit else z)))
      else zoomLevel)"

section \<open>The culling of grid cells\<close>

text \<open>
  The corner points of a cell come from \<open>transformPointSafe\<close> and may be \<open>null\<close>.  An
  optional access \<open>p?.x\<close> of a missing point is \<open>undefined\<close> (\<open>None\<close>); \<open>undefined\<close> is
  falsy, and adding it to a number gives NaN.  In the source expression
  \<open>p1?.x || 0 + p2?.x || 0 + p3?.x || 0\<close> the sum binds tighter than the disjunction,
  so it reads \<open>((p1?.x || (0 + p2?.x)) || (0 + p3?.x)) || 0\<close>.
\<close>

record CullRect =
  cr_x :: number
  cr_y :: number
  cr_w :: number
  cr_h :: number

definition opt_x :: "Point option \<Rightarrow> number option" where
  "opt_x p = map_option pt_x p"

definition opt_y :: "Point option \<Rightarrow> number option" where
  "opt_y p = map_option pt_y p"

fun or_undef :: "number option \<Rightarrow> number \<Rightarrow> number" where
  "or_undef None v = v"
| "or_undef (Some u) v = (if truthy u then u else v)"

definition or_num :: "number \<Rightarrow> number \<Rightarrow> number" where
  "or_num u v = (if truthy u then u else v)"

fun plus_undef :: "number \<Rightarrow> number option \<Rightarrow> number" where
  "plus_undef u None = NaN"
| "plus_undef u (Some v) = u + v"

definition cell_cx :: "Point option \<Rightarrow> Point option \<Rightarrow> Point option \<Rightarrow> number" where
  "cell_cx p1 p2 p3 =
     or_num (or_num (or_undef (opt_x p1) (plus_undef (Fin 0) (opt_x p2)))
                    (plus_undef (Fin 0) (opt_x p3)))
            (Fin 0) / Fin 3"

definition cell_cy :: "Point option \<Rightarrow> Point option \<Rightarrow> Point option \<Rightarrow> number" where
  "cell_cy p1 p2 p3 =
     or_num (or_num (or_undef (opt_y p1) (plus_undef (Fin 0) (opt_y p2)))
                    (plus_undef (Fin 0) (opt_y p3)))
            (Fin 0) / Fin 3"

text \<open>\<open>outside cullRect cx cy\<close> is the test of the source on the centre \<open>(cx, cy)\<close>.\<close>

definition outside :: "CullRect \<Rightarrow> number \<Rightarrow> number \<Rightarrow> bool" where
  "outside cullRect cx cy =
     (cx < cr_x cullRect - Fin 5000 \<or> cr_x cullRect + cr_w cullRect + Fin 5000 < cx \<or>
      cy < cr_y cullRect - Fin 5000 \<or> cr_y cullRect + cr_h cullRect + Fin 5000 < cy)"

definition cellCulled :: "CullRect \<Rightarrow> Point option \<Rightarrow> Point option \<Rightarrow> Point option \<Rightarrow> bool" where
  "cellCulled cullRect p1 p2 p3 = outside cullRect (cell_cx p1 p2 p3) (cell_cy p1 p2 p3)"

text \<open>
  What the loop body does with one cell: nothing when the cell is culled, otherwise the
  calls of \<open>drawPaddedTriangle\<close>, one for each of the two triangles whose three corners
  are all present.  The result lists the screen triangles of the calls.
\<close>

fun triangle :: "Point option \<Rightarrow> Point option \<Rightarrow> Point option \<Rightarrow> (Point \<times> Point \<times> Point) list" where
  "triangle (Some u) (Some v) (Some w) = [(u, v, w)]"
| "triangle _ _ _ = []"

definition drawCell ::
  "CullRect \<Rightarrow> Point option \<Rightarrow> Point option \<Rightarrow> Point option \<Rightarrow> Point option
   \<Rightarrow> (Point \<times> Point \<times> Point) list" where
  "drawCell cullRect p1 p2 p3 p4 =
     (if cellCulled cullRect p1 p2 p3 then []
      else triangle p1 p2 p3 @ triangle p2 p4 p3)"

text \<open>
  The centroid as the specification words it: the mean of the projected corner points
  of the cell.
\<close>

definition centroid_x :: "Point list \<Rightarrow> number" where
  "centroid_x ps = fold (\<lambda>p s. s + pt_x p) ps (Fin 0) / Fin (real (length ps))"

definition centroid_y :: "Point list \<Rightarrow> number" where
  "centroid_y ps = fold (\<lambda>p s. s + pt_y p) ps (Fin 0) / Fin (real (length ps))"

section \<open>Finite inputs\<close>

text \<open>A quad and a point with finite coordinates, for the statements below.\<close>

definition FPoint :: "real \<Rightarrow> real \<Rightarrow> Point" where
  "FPoint u v = \<lparr>pt_x = Fin u, pt_y = Fin v\<rparr>"

definition FQuad :: "real \<times> real \<Rightarrow> real \<times> real \<Rightarrow> real \<times> real \<Rightarrow> real \<times> real \<Rightarrow> Quad" where
  "FQuad a b c d =
     \<lparr>qp1 = FPoint (fst a) (snd a), qp2 = FPoint (fst b) (snd b),
      qp3 = FPoint (fst c) (snd c), qp4 = FPoint (fst d) (snd d)\<rparr>"













text \<open>
  The area of the polygon \<open>p1 p2 p3 p4\<close> by the surveyor's formula, which the comment of
  \<open>getQuadArea\<close> ("calculate polygon area") and the quad area of the specification name:
  the fourth product of the first sum is \<open>p4.x * p1.y\<close>.  \<open>quadArea\<close> is this area for the
  quad in image pixels.
\<close>

definition polygonArea :: "Point \<Rightarrow> Point \<Rightarrow> Point \<Rightarrow> Point \<Rightarrow> number" where
  "polygonArea p1 p2 p3 p4 =
     Fin (1 / 2) * Math_abs
       (pt_x p1 * pt_y p2 + pt_x p2 * pt_y p3 + pt_x p3 * pt_y p4 + pt_x p4 * pt_y p1
        - (pt_y p1 * pt_x p2 + pt_y p2 * pt_x p3 + pt_y p3 * pt_x p4 + pt_y p4 * pt_x p1))"

definition quadArea :: "number \<Rightarrow> number \<Rightarrow> Quad \<Rightarrow> number" where
  "quadArea iw ih quad =
     polygonArea (qp1 (qPoints iw ih quad)) (qp2 (qPoints iw ih quad))
                 (qp3 (qPoints iw ih quad)) (qp4 (qPoints iw ih quad))"

section \<open>Arithmetic of finite numbers\<close>

lemma Fin_minus [simp]: "Fin x - Fin y = Fin (x - y)"
  by (simp add: minus_number_def)

lemma minus_NaN [simp]: "u - NaN = NaN" "NaN - u = NaN"
  by (cases u; simp add: minus_number_def)+

lemma PInf_minus_Fin [simp]: "PInf - Fin y = PInf" "NInf - Fin y = NInf"
  by (simp_all add: minus_number_def)

section \<open>Rounding to double precision\<close>

text \<open>
  The exponent brackets its argument; rounding is monotone, idempotent and symmetric, it
  keeps every \<open>m * 2^e\<close> with \<open>\<bar>m\<bar> < 2^53\<close> and \<open>- 1074 \<le> e\<close>, and above \<open>2^(- 1022)\<close> its relative
  error is at most \<open>2^(- 53)\<close>.
\<close>

lemma two_powi_less_iff: "(2::real) powi a < 2 powi b \<longleftrightarrow> a < b"
proof
  assume l: "(2::real) powi a < 2 powi b"
  show "a < b"
  proof (rule ccontr)
    assume "\<not> a < b"
    then have "b \<le> a" by simp
    then have "(2::real) powi b \<le> 2 powi a" by (intro power_int_increasing) simp_all
    then show False using l by simp
  qed
next
  assume "a < b"
  then show "(2::real) powi a < 2 powi b" by (intro power_int_strict_increasing) simp_all
qed

lemma two_powi_le_iff: "(2::real) powi a \<le> 2 powi b \<longleftrightarrow> a \<le> b"
  using two_powi_less_iff [of b a] by (simp add: not_less [symmetric])

lemma two_powi_pos [simp]: "0 < (2::real) powi a"
  by (simp add: zero_less_power_int)

lemma bitlen_pos: "0 < n \<Longrightarrow> 0 < bitlen n"
  using bitlen_eq_zero_iff [of n] bitlen_nonneg [of n] by linarith

lemma expo_bounds:
  assumes "x \<noteq> 0"
  shows "2 powi expo x \<le> \<bar>x\<bar>" and "\<bar>x\<bar> < 2 powi (expo x + 1)"
proof -
  show "2 powi expo x \<le> \<bar>x\<bar>"
  proof (cases "1 \<le> \<bar>x\<bar>")
    case True
    define n where "n = \<lfloor>\<bar>x\<bar>\<rfloor>"
    have n: "0 < n" using True unfolding n_def by linarith
    have e: "expo x = bitlen n - 1" using True by (simp add: expo_def n_def)
    have b: "0 < bitlen n" using n by (rule bitlen_pos)
    have "2 ^ nat (bitlen n - 1) \<le> n" using bitlen_bounds [OF n] by simp
    then have "(2::real) ^ nat (bitlen n - 1) \<le> of_int n"
      by (metis of_int_le_iff of_int_numeral of_int_power)
    also have "\<dots> \<le> \<bar>x\<bar>" unfolding n_def by linarith
    finally show ?thesis using b unfolding e by (simp add: power_int_def)
  next
    case False
    define y where "y = 1 / \<bar>x\<bar>"
    define n where "n = \<lceil>y\<rceil> - 1"
    have y: "1 < y" using False assms by (simp add: y_def)
    have n: "0 < n" using y unfolding n_def by linarith
    have e: "expo x = - bitlen n" using False by (simp add: expo_def n_def y_def)
    have b: "0 < bitlen n" using n by (rule bitlen_pos)
    have "n < 2 ^ nat (bitlen n)" using bitlen_bounds [OF n] by simp
    then have "n + 1 \<le> 2 ^ nat (bitlen n)" by simp
    then have "of_int (n + 1) \<le> (2::real) ^ nat (bitlen n)"
      by (metis of_int_le_iff of_int_numeral of_int_power)
    moreover have "y \<le> of_int (n + 1)" unfolding n_def by simp
    ultimately have "y \<le> 2 ^ nat (bitlen n)" by linarith
    then have "1 / 2 ^ nat (bitlen n) \<le> \<bar>x\<bar>"
      using assms unfolding y_def by (simp add: field_simps)
    then show ?thesis using b unfolding e by (simp add: power_int_def field_simps)
  qed
  show "\<bar>x\<bar> < 2 powi (expo x + 1)"
  proof (cases "1 \<le> \<bar>x\<bar>")
    case True
    define n where "n = \<lfloor>\<bar>x\<bar>\<rfloor>"
    have n: "0 < n" using True unfolding n_def by linarith
    have e: "expo x = bitlen n - 1" using True by (simp add: expo_def n_def)
    have b: "0 < bitlen n" using n by (rule bitlen_pos)
    have "n < 2 ^ nat (bitlen n)" using bitlen_bounds [OF n] by simp
    then have "n + 1 \<le> 2 ^ nat (bitlen n)" by simp
    then have "of_int (n + 1) \<le> (2::real) ^ nat (bitlen n)"
      by (metis of_int_le_iff of_int_numeral of_int_power)
    moreover have "\<bar>x\<bar> < of_int (n + 1)" unfolding n_def by linarith
    ultimately show ?thesis using b unfolding e by (simp add: power_int_def)
  next
    case False
    define y where "y = 1 / \<bar>x\<bar>"
    define n where "n = \<lceil>y\<rceil> - 1"
    have y: "1 < y" using False assms by (simp add: y_def)
    have n: "0 < n" using y unfolding n_def by linarith
    have e: "expo x = - bitlen n" using False by (simp add: expo_def n_def y_def)
    have b: "0 < bitlen n" using n by (rule bitlen_pos)
    have "2 ^ nat (bitlen n - 1) \<le> n" using bitlen_bounds [OF n] by simp
    then have "(2::real) ^ nat (bitlen n - 1) \<le> of_int n"
      by (metis of_int_le_iff of_int_numeral of_int_power)
    moreover have "of_int n < y" unfolding n_def by linarith
    ultimately have "2 ^ nat (bitlen n - 1) < y" by linarith
    then have "\<bar>x\<bar> < 1 / 2 ^ nat (bitlen n - 1)"
      using assms unfolding y_def by (simp add: field_simps)
    moreover have "(2::real) powi (- bitlen n + 1) = 1 / 2 ^ nat (bitlen n - 1)"
      using b by (simp add: power_int_def field_simps)
    ultimately show ?thesis unfolding e by simp
  qed
qed

lemma expo_unique:
  assumes "2 powi e \<le> \<bar>x\<bar>" "\<bar>x\<bar> < 2 powi (e + 1)"
  shows "expo x = e"
proof -
  have "0 < \<bar>x\<bar>" using assms(1) two_powi_pos [of e] by linarith
  then have x: "x \<noteq> 0" by simp
  note b = expo_bounds [OF x]
  have "(2::real) powi e < 2 powi (expo x + 1)" using assms(1) b(2) by linarith
  moreover have "(2::real) powi expo x < 2 powi (e + 1)" using assms(2) b(1) by linarith
  ultimately show ?thesis unfolding two_powi_less_iff by linarith
qed

lemma quantum_pos [simp]: "0 < quantum x"
  by (simp add: quantum_def)

lemma quantum_neq_0 [simp]: "quantum x \<noteq> 0"
  using quantum_pos [of x] by linarith

lemma quantum_nonneg [simp]: "0 \<le> quantum x"
  using quantum_pos [of x] by linarith

lemma round_even_int [simp]: "round_even (of_int n) = n"
  by (simp add: round_even_def)

lemma round_even_zero [simp]: "round_even 0 = 0"
  using round_even_int [of 0] by simp

lemma round_even_cases:
  "round_even y = \<lfloor>y\<rfloor> \<and> y - of_int \<lfloor>y\<rfloor> \<le> 1 / 2
   \<or> round_even y = \<lfloor>y\<rfloor> + 1 \<and> 1 / 2 \<le> y - of_int \<lfloor>y\<rfloor>"
  by (simp add: round_even_def Let_def)

lemma round_even_err: "\<bar>of_int (round_even y) - y\<bar> \<le> 1 / 2"
  using round_even_cases [of y] by (auto; linarith)

lemma round_even_mono:
  assumes "y \<le> z"
  shows "round_even y \<le> round_even z"
proof (cases "\<lfloor>y\<rfloor> < \<lfloor>z\<rfloor>")
  case True
  have "round_even y \<le> \<lfloor>y\<rfloor> + 1" using round_even_cases [of y] by auto
  moreover have "\<lfloor>z\<rfloor> \<le> round_even z" using round_even_cases [of z] by auto
  ultimately show ?thesis using True by linarith
next
  case False
  then have f: "\<lfloor>y\<rfloor> = \<lfloor>z\<rfloor>" using assms floor_mono [of y z] by linarith
  have r: "y - of_int \<lfloor>y\<rfloor> \<le> z - of_int \<lfloor>z\<rfloor>" using assms f by simp
  show ?thesis using r f by (auto simp add: round_even_def Let_def)
qed

lemma round_even_uminus: "round_even (- y) = - round_even y"
proof (cases "of_int \<lfloor>y\<rfloor> = y")
  case True
  then obtain n where "y = of_int n" by metis
  then show ?thesis by (simp del: of_int_minus add: of_int_minus [symmetric])
next
  case False
  then have fl: "\<lfloor>- y\<rfloor> = - \<lfloor>y\<rfloor> - 1"
    by (simp add: floor_minus ceiling_altdef)
  have r: "- y - of_int (- \<lfloor>y\<rfloor> - 1) = 1 - (y - of_int \<lfloor>y\<rfloor>)" by simp
  show ?thesis
    unfolding round_even_def Let_def fl r
    by (auto simp: algebra_simps)
qed

lemma expo_uminus [simp]: "expo (- x) = expo x"
  by (simp add: expo_def)

lemma quantum_uminus [simp]: "quantum (- x) = quantum x"
  by (simp add: quantum_def)

lemma nearest_uminus: "nearest (- x) = - nearest x"
  by (simp add: nearest_def round_even_uminus)

lemma nearest_zero [simp]: "nearest 0 = 0"
  by (simp add: nearest_def)

lemma nearest_err: "\<bar>nearest x - x\<bar> \<le> quantum x / 2"
proof -
  have "\<bar>of_int (round_even (x / quantum x)) - x / quantum x\<bar> * quantum x \<le> 1 / 2 * quantum x"
    by (intro mult_right_mono round_even_err less_imp_le quantum_pos)
  moreover have "\<bar>of_int (round_even (x / quantum x)) - x / quantum x\<bar> * quantum x
                 = \<bar>nearest x - x\<bar>"
  proof -
    have "\<bar>of_int (round_even (x / quantum x)) - x / quantum x\<bar> * quantum x
          = \<bar>(of_int (round_even (x / quantum x)) - x / quantum x) * quantum x\<bar>"
      by (simp add: abs_mult)
    also have "(of_int (round_even (x / quantum x)) - x / quantum x) * quantum x = nearest x - x"
      by (simp add: nearest_def algebra_simps)
    finally show ?thesis .
  qed
  ultimately show ?thesis by simp
qed

lemma nearest_nonneg: "0 \<le> x \<Longrightarrow> 0 \<le> nearest x"
  using round_even_mono [of 0 "x / quantum x"] by (simp add: nearest_def)

lemma two_powi_add: "(2::real) powi (a + b) = 2 powi a * 2 powi b"
  by (simp add: power_int_add)

lemma two_powi_diff: "(2::real) powi (a - b) = 2 powi a / 2 powi b"
  by (simp add: power_int_diff)

lemma two_powi_nat: "0 \<le> a \<Longrightarrow> (2::real) powi a = of_int (2 ^ nat a)"
  by (simp add: power_int_def)

lemma quantum_le:
  assumes "x \<noteq> 0" "\<bar>x\<bar> < 2 powi (e + 53)" "- 1074 \<le> e"
  shows "quantum x \<le> 2 powi e" and "\<exists>j. 2 powi e = of_int j * quantum x"
proof -
  have "2 powi expo x < (2::real) powi (e + 53)"
    using expo_bounds(1) [OF assms(1)] assms(2) by linarith
  then have "expo x < e + 53" by (simp only: two_powi_less_iff)
  then have k: "max (expo x) (- 1022) - 52 \<le> e" using assms(3) by simp
  then show "quantum x \<le> 2 powi e" unfolding quantum_def by (simp only: two_powi_le_iff)
  have "(2::real) powi e = 2 powi (e - (max (expo x) (- 1022) - 52)) * quantum x"
    unfolding quantum_def two_powi_add [symmetric] by simp
  also have "(2::real) powi (e - (max (expo x) (- 1022) - 52))
             = of_int (2 ^ nat (e - (max (expo x) (- 1022) - 52)))"
    using k by (intro two_powi_nat) simp
  finally show "\<exists>j. 2 powi e = of_int j * quantum x" by blast
qed

lemma nearest_multiple:
  assumes "x = of_int j * quantum x"
  shows "nearest x = x"
proof -
  have "x / quantum x = of_int j" using assms by (simp add: field_simps)
  then show ?thesis unfolding nearest_def using assms by simp
qed

lemma nearest_fix:
  assumes "x = of_int m * 2 powi e" "\<bar>m\<bar> < 2 ^ 53" "- 1074 \<le> e"
  shows "nearest x = x"
proof (cases "x = 0")
  case True
  then show ?thesis by simp
next
  case False
  have "\<bar>of_int m :: real\<bar> < of_int (2 ^ 53)"
    using assms(2) by (simp only: of_int_abs [symmetric] of_int_less_iff)
  then have "\<bar>of_int m :: real\<bar> * 2 powi e < 2 ^ 53 * 2 powi e"
    by (intro mult_strict_right_mono) simp_all
  then have "\<bar>x\<bar> < 2 powi (e + 53)"
    unfolding assms(1) abs_mult two_powi_add by (simp add: mult.commute)
  from quantum_le(2) [OF False this assms(3)] obtain j where j: "2 powi e = of_int j * quantum x" ..
  have "x = of_int (m * j) * quantum x" unfolding of_int_mult using assms(1) j by simp
  then show ?thesis by (rule nearest_multiple)
qed

lemma nearest_le_power:
  assumes "0 < x" "x \<le> 2 powi e" "- 1022 \<le> e"
  shows "nearest x \<le> 2 powi e"
proof -
  have x0: "x \<noteq> 0" using assms(1) by simp
  have "(2::real) powi e < 2 powi (e + 1)" by (simp add: two_powi_less_iff)
  then have "\<bar>x\<bar> < 2 powi (e + 1)" using assms(1,2) by linarith
  then have "\<bar>x\<bar> < 2 powi (e - 52 + 53)" by (simp add: add.commute)
  moreover have "- 1074 \<le> e - 52" using assms(3) by simp
  ultimately have "\<exists>j. 2 powi (e - 52) = of_int j * quantum x"
    using x0 by (rule quantum_le(2) [rotated])
  then obtain j where j: "2 powi (e - 52) = of_int j * quantum x" ..
  have "(2::real) powi e = 2 powi (e - 52) * 2 ^ 52"
    using two_powi_add [of "e - 52" 52] by simp
  then have p: "(2::real) powi e = of_int (j * 2 ^ 52) * quantum x"
    using j by simp
  have "x / quantum x \<le> of_int (j * 2 ^ 52)"
    using assms(2) unfolding p by (simp add: field_simps)
  then have "round_even (x / quantum x) \<le> j * 2 ^ 52"
    using round_even_mono [of "x / quantum x" "of_int (j * 2 ^ 52)"] by (simp only: round_even_int)
  then have "(of_int (round_even (x / quantum x)) :: real) \<le> of_int (j * 2 ^ 52)"
    by (simp only: of_int_le_iff)
  then have "of_int (round_even (x / quantum x)) * quantum x \<le> of_int (j * 2 ^ 52) * quantum x"
    by (intro mult_right_mono) simp_all
  then show ?thesis unfolding nearest_def p .
qed

lemma nearest_ge_expo:
  assumes "0 < x" "- 1022 \<le> expo x"
  shows "2 powi expo x \<le> nearest x"
proof -
  have q: "quantum x = 2 powi (expo x - 52)" using assms(2) by (simp add: quantum_def max_def)
  have e: "(2::real) powi expo x = of_int (2 ^ 52) * quantum x"
    unfolding q using two_powi_add [of "expo x - 52" 52] by simp
  have "2 powi expo x \<le> x" using expo_bounds(1) [of x] assms(1) by simp
  then have "of_int (2 ^ 52) \<le> x / quantum x"
    unfolding e by (simp add: field_simps)
  then have "2 ^ 52 \<le> round_even (x / quantum x)"
    using round_even_mono [of "of_int (2 ^ 52)" "x / quantum x"] by (simp only: round_even_int)
  then have "(of_int (2 ^ 52) :: real) \<le> of_int (round_even (x / quantum x))"
    by (simp only: of_int_le_iff)
  then have "of_int (2 ^ 52) * quantum x \<le> of_int (round_even (x / quantum x)) * quantum x"
    by (intro mult_right_mono) simp_all
  then show ?thesis unfolding nearest_def e .
qed

lemma expo_mono:
  assumes "0 < x" "x \<le> y"
  shows "expo x \<le> expo y"
proof -
  have "2 powi expo x \<le> x" using expo_bounds(1) [of x] assms(1) by simp
  moreover have "y < 2 powi (expo y + 1)" using expo_bounds(2) [of y] assms by simp
  ultimately have "(2::real) powi expo x < 2 powi (expo y + 1)" using assms(2) by linarith
  then show ?thesis by (simp only: two_powi_less_iff) 
qed

lemma nearest_mono_pos:
  assumes "0 < x" "x \<le> y"
  shows "nearest x \<le> nearest y"
proof (cases "max (expo x) (- 1022) = max (expo y) (- 1022)")
  case True
  then have q: "quantum x = quantum y" by (simp add: quantum_def)
  have "x / quantum y \<le> y / quantum y" using assms(2) by (simp add: divide_right_mono)
  then have "round_even (x / quantum y) \<le> round_even (y / quantum y)" by (rule round_even_mono)
  then have "(of_int (round_even (x / quantum y)) :: real) \<le> of_int (round_even (y / quantum y))"
    by (simp only: of_int_le_iff)
  then show ?thesis unfolding nearest_def q by (intro mult_right_mono) simp_all
next
  case False
  have le: "expo x \<le> expo y" using assms by (rule expo_mono)
  have y0: "0 < y" using assms by linarith
  from False le have e: "expo x < expo y" "- 1022 < expo y" by (auto simp: max_def split: if_splits)
  have "x < 2 powi (expo x + 1)" using expo_bounds(2) [of x] assms(1) by simp
  also have "(2::real) powi (expo x + 1) \<le> 2 powi expo y"
    using e(1) by (simp add: two_powi_le_iff)
  finally have "x \<le> 2 powi expo y" by simp
  then have "nearest x \<le> 2 powi expo y" using assms(1) e(2) by (intro nearest_le_power) simp_all
  also have "\<dots> \<le> nearest y" using y0 e(2) by (intro nearest_ge_expo) simp_all
  finally show ?thesis .
qed

lemma nearest_mono:
  assumes "x \<le> y"
  shows "nearest x \<le> nearest y"
proof -
  consider "0 < x" | "x \<le> 0" "0 \<le> y" | "y < 0" by linarith
  then show ?thesis
  proof cases
    case 1
    then show ?thesis using assms by (rule nearest_mono_pos)
  next
    case 2
    have "nearest x \<le> 0" using nearest_nonneg [of "- x"] 2(1) by (simp add: nearest_uminus)
    moreover have "0 \<le> nearest y" using 2(2) by (rule nearest_nonneg)
    ultimately show ?thesis by linarith
  next
    case 3
    have "nearest (- y) \<le> nearest (- x)" using 3 assms by (intro nearest_mono_pos) simp_all
    then show ?thesis by (simp add: nearest_uminus)
  qed
qed

lemma nearest_idem_pos:
  assumes "0 < x"
  shows "nearest (nearest x) = nearest x"
proof -
  define k where "k = max (expo x) (- 1022) - 52"
  define n where "n = round_even (x / quantum x)"
  have q: "quantum x = 2 powi k" by (simp add: quantum_def k_def)
  have k: "- 1074 \<le> k" by (simp add: k_def)
  have nx: "nearest x = of_int n * 2 powi k" by (simp add: nearest_def n_def q)
  have "x < 2 powi (expo x + 1)" using expo_bounds(2) [of x] assms by simp
  also have "(2::real) powi (expo x + 1) \<le> 2 powi (k + 53)"
    by (simp add: two_powi_le_iff k_def)
  also have "(2::real) powi (k + 53) = of_int (2 ^ 53) * quantum x"
    unfolding q two_powi_add by simp
  finally have "x / quantum x \<le> of_int (2 ^ 53)" by (simp add: field_simps)
  then have u: "n \<le> 2 ^ 53"
    unfolding n_def using round_even_mono [of "x / quantum x" "of_int (2 ^ 53)"]
    by (simp only: round_even_int)
  have "0 \<le> x / quantum x" using assms by simp
  then have l: "0 \<le> n"
    unfolding n_def using round_even_mono [of 0 "x / quantum x"] by simp
  show ?thesis
  proof (cases "n = 2 ^ 53")
    case True
    have "nearest x = of_int 1 * 2 powi (k + 53)" unfolding nx True two_powi_add by simp
    then show ?thesis using k by (intro nearest_fix [of _ 1 "k + 53"]) simp_all
  next
    case False
    then have "\<bar>n\<bar> < 2 ^ 53" using u l by simp
    then show ?thesis using nx k by (intro nearest_fix [of _ n k]) simp_all
  qed
qed

lemma nearest_idem [simp]: "nearest (nearest x) = nearest x"
proof -
  consider "0 < x" | "x = 0" | "x < 0" by linarith
  then show ?thesis
  proof cases
    case 1
    then show ?thesis by (rule nearest_idem_pos)
  next
    case 2
    then show ?thesis by simp
  next
    case 3
    then have "nearest (nearest (- x)) = nearest (- x)" by (intro nearest_idem_pos) simp
    then show ?thesis by (simp add: nearest_uminus)
  qed
qed

lemma nearest_rel_err:
  assumes "1 / 2 ^ 1022 \<le> \<bar>x\<bar>"
  shows "\<bar>nearest x - x\<bar> \<le> \<bar>x\<bar> / 2 ^ 53"
proof -
  have x0: "x \<noteq> 0" using assms by auto
  have "(2::real) powi (- 1022) = 1 / 2 ^ 1022" by (simp add: power_int_def field_simps)
  then have "(2::real) powi (- 1022) < 2 powi (expo x + 1)"
    using expo_bounds(2) [OF x0] assms by linarith
  then have e: "- 1022 \<le> expo x" by (simp only: two_powi_less_iff) 
  then have q: "quantum x = 2 powi expo x / 2 ^ 52"
    using two_powi_diff [of "expo x" 52] by (simp add: quantum_def max_def)
  have "\<bar>nearest x - x\<bar> \<le> quantum x / 2" by (rule nearest_err)
  also have "\<dots> = 2 powi expo x / 2 ^ 53" unfolding q by simp
  also have "\<dots> \<le> \<bar>x\<bar> / 2 ^ 53"
    using expo_bounds(1) [OF x0] by (intro divide_right_mono) simp_all
  finally show ?thesis .
qed

lemma huge_pos: "0 < huge"
  by (simp add: huge_def)

lemma huge_gt: "x \<le> 2 ^ 1023 \<Longrightarrow> x < huge"
proof -
  have "(2::real) ^ 1023 < 2 ^ 1024" by (intro power_strict_increasing) simp_all
  then show "x \<le> 2 ^ 1023 \<Longrightarrow> x < huge" unfolding huge_def by linarith
qed

lemma huge_gt_1: "1 < huge"
  by (rule huge_gt) (rule one_le_power, simp)

lemma rd_cases:
  "rd x = Fin (nearest x) \<and> \<bar>nearest x\<bar> < huge
   \<or> rd x = PInf \<and> huge \<le> nearest x
   \<or> rd x = NInf \<and> nearest x \<le> - huge"
  using huge_pos by (auto simp: rd_def)

lemma rd_zero [simp]: "rd 0 = Fin 0"
  using huge_pos by (simp add: rd_def)

lemma rd_uminus: "rd (- x) = - rd x"
  using huge_pos by (auto simp: rd_def nearest_uminus)

lemma rd_mono:
  assumes "x \<le> y"
  shows "rd x \<le> rd y"
  using nearest_mono [OF assms] rd_cases [of x] rd_cases [of y] huge_pos by auto

lemma finite_double_nearest: "finite_double x \<Longrightarrow> nearest x = x"
  unfolding finite_double_def using rd_cases [of x] by auto

lemma finite_double_bound: "finite_double x \<Longrightarrow> \<bar>x\<bar> < huge"
  unfolding finite_double_def using rd_cases [of x] by auto

lemma finite_doubleI:
  assumes "x = of_int m * 2 powi e" "\<bar>m\<bar> < 2 ^ 53" "- 1074 \<le> e" "\<bar>x\<bar> < huge"
  shows "finite_double x"
  unfolding finite_double_def using nearest_fix [OF assms(1-3)] assms(4) by (auto simp: rd_def)

lemma rd_idem: "rd x = Fin y \<Longrightarrow> finite_double y"
  unfolding finite_double_def using rd_cases [of x] by (auto simp: rd_def)

lemma finite_double_uminus [simp]: "finite_double (- x) = finite_double x"
  unfolding finite_double_def rd_uminus by (cases "rd x") auto

lemma rd_le:
  assumes "x \<le> y" "finite_double y"
  shows "rd x \<le> Fin y"
  using rd_mono [OF assms(1)] assms(2) by (simp add: finite_double_def)

lemma rd_ge:
  assumes "y \<le> x" "finite_double y"
  shows "Fin y \<le> rd x"
  using rd_mono [OF assms(1)] assms(2) by (simp add: finite_double_def)

lemma rd_between:
  assumes "a \<le> x" "x \<le> b" "finite_double a" "finite_double b"
  shows "\<exists>y. rd x = Fin y \<and> a \<le> y \<and> y \<le> b \<and> finite_double y"
proof -
  have "Fin a \<le> rd x" "rd x \<le> Fin b" using assms by (auto intro: rd_le rd_ge)
  then obtain y where y: "rd x = Fin y" "a \<le> y" "y \<le> b" by (cases "rd x") auto
  then show ?thesis using rd_idem by blast
qed

lemma finite_double_0 [simp]: "finite_double 0"
  using huge_pos by (simp add: finite_double_def rd_def)

lemma finite_double_1 [simp]: "finite_double 1"
  using huge_gt_1 by (intro finite_doubleI [of _ 1 0]) simp_all

lemma rd_exact:
  assumes "x = of_int m * 2 powi e" "\<bar>m\<bar> < 2 ^ 53" "- 1074 \<le> e" "e \<le> 970"
  shows "rd x = Fin x"
proof -
  have "\<bar>of_int m :: real\<bar> \<le> 2 ^ 53"
    using assms(2) by (metis less_imp_le of_int_abs of_int_le_iff of_int_numeral of_int_power)
  moreover have "(2::real) powi e \<le> 2 powi 970" using assms(4) by (simp only: two_powi_le_iff)
  ultimately have "\<bar>of_int m :: real\<bar> * 2 powi e \<le> 2 ^ 53 * 2 powi 970"
    by (intro mult_mono) simp_all
  also have "(2::real) ^ 53 * 2 powi 970 = 2 ^ 1023"
    using two_powi_add [of 53 970] by simp
  finally have "\<bar>x\<bar> \<le> 2 ^ 1023" unfolding assms(1) abs_mult by simp
  then have "\<bar>x\<bar> < huge" by (rule huge_gt)
  then have "finite_double x" using assms(1-3) by (intro finite_doubleI [of x m e]) simp_all
  then show ?thesis by (simp add: finite_double_def)
qed

lemma rd_eval:
  assumes "2 powi e \<le> \<bar>x\<bar>" "\<bar>x\<bar> < 2 powi (e + 1)" "- 1022 \<le> e" "e \<le> 1022"
    and "round_even (x / 2 powi (e - 52)) = n" "y = of_int n * 2 powi (e - 52)"
  shows "rd x = Fin y"
proof -
  have e: "expo x = e" using assms(1,2) by (rule expo_unique)
  have q: "quantum x = 2 powi (e - 52)" using assms(3) by (simp add: quantum_def e max_def)
  have n: "nearest x = y" by (simp add: nearest_def q assms(5,6))
  have "\<bar>nearest x - x\<bar> \<le> quantum x / 2" by (rule nearest_err)
  then have "\<bar>y\<bar> \<le> \<bar>x\<bar> + 2 powi (e - 52) / 2" unfolding n q by linarith
  also have "\<dots> < 2 powi (e + 1) + 2 powi (e - 52) / 2" using assms(2) by simp
  also have "\<dots> \<le> 2 powi 1023 + 2 powi 1023"
  proof -
    have "(2::real) powi (e + 1) \<le> 2 powi 1023" "(2::real) powi (e - 52) \<le> 2 powi 1023"
      using assms(4) by (intro power_int_increasing; simp)+
    then show ?thesis using two_powi_pos [of "e - 52"] by linarith
  qed
  also have "\<dots> = huge" unfolding huge_def by simp
  finally show ?thesis using n by (auto simp: rd_def)
qed

lemma powi_neg_eval: "(2::real) powi (- numeral k) = 1 / 2 ^ numeral k"
  by (simp add: power_int_def field_simps)

lemma powi_pos_eval: "(2::real) powi (numeral k) = 2 ^ numeral k"
  by (simp add: power_int_def)

lemmas rd_eval_simps = powi_neg_eval powi_pos_eval round_even_def Let_def


text \<open>The doubles between 1 and \<open>2^52\<close>, and what their spacing makes exact.\<close>

lemma finite_double_grid:
  assumes "finite_double x" "x \<noteq> 0"
  obtains n where "x = of_int n * quantum x"
  using finite_double_nearest [OF assms(1)] unfolding nearest_def by metis

lemma finite_double_dyadic:
  assumes "x = of_int n * 2 powi k" "- 1074 \<le> k" "\<bar>x\<bar> < 2 powi (k + 53)" "\<bar>x\<bar> < huge"
  shows "finite_double x"
proof -
  have "\<bar>of_int n :: real\<bar> * 2 powi k < 2 ^ 53 * 2 powi k"
    using assms(3) unfolding assms(1) abs_mult two_powi_add by (simp add: mult.commute)
  then have "\<bar>of_int n :: real\<bar> < 2 ^ 53" by simp
  then have "\<bar>n\<bar> < 2 ^ 53"
    by (metis of_int_abs of_int_less_iff of_int_numeral of_int_power)
  then show ?thesis using assms by (intro finite_doubleI [of x n k]) simp_all
qed

lemma less_huge:
  assumes "\<bar>x\<bar> \<le> 2 ^ n" "n \<le> 1023"
  shows "\<bar>x\<bar> < huge"
proof -
  have "(2::real) ^ n \<le> 2 ^ 1023" using assms(2) by (intro power_increasing) simp_all
  then show ?thesis using huge_gt [of "\<bar>x\<bar>"] assms(1) by linarith
qed

lemma double_grid_1:
  assumes "finite_double L" "1 \<le> L" "L < 2 ^ 52"
  obtains n k where "L = of_int n * 2 powi k" "- 52 \<le> k" "k \<le> - 1" "L < 2 powi (k + 53)"
    "2 powi (k + 52) \<le> L" "k = expo L - 52"
proof -
  have L0: "L \<noteq> 0" using assms(2) by simp
  have "(2::real) powi 0 < 2 powi (expo L + 1)"
    using expo_bounds(2) [OF L0] assms(2) by simp
  then have e0: "0 \<le> expo L" by (simp only: two_powi_less_iff) 
  have "(2::real) powi expo L < 2 powi 52"
    using expo_bounds(1) [OF L0] assms(2,3) by simp
  then have e1: "expo L < 52" by (simp only: two_powi_less_iff)
  have q: "quantum L = 2 powi (expo L - 52)" using e0 by (simp add: quantum_def max_def)
  obtain n where n: "L = of_int n * quantum L" using assms(1) L0 by (rule finite_double_grid)
  show ?thesis
  proof (rule that [of n "expo L - 52"])
    show "L = of_int n * 2 powi (expo L - 52)" using n q by simp
    show "- 52 \<le> expo L - 52" using e0 by simp
    show "expo L - 52 \<le> - 1" using e1 by simp
    show "L < 2 powi (expo L - 52 + 53)" using expo_bounds(2) [OF L0] assms(2) by (simp add: add.commute)
    show "2 powi (expo L - 52 + 52) \<le> L" using expo_bounds(1) [OF L0] assms(2) by simp
  qed simp
qed

lemma one_on_grid:
  assumes "- 52 \<le> k" "k \<le> 0"
  shows "(1::real) = of_int (2 ^ nat (- k)) * 2 powi k"
proof -
  have "(2::real) powi (- k) = of_int (2 ^ nat (- k))" using assms by (intro two_powi_nat) simp
  then have "of_int (2 ^ nat (- k)) * 2 powi k = (2::real) powi (- k) * 2 powi k" by simp
  also have "\<dots> = 1" unfolding two_powi_add [symmetric] by simp
  finally show ?thesis by simp
qed

lemma double_minus_1:
  assumes "finite_double L" "1 \<le> L" "L < 2 ^ 52"
  shows "finite_double (L - 1)"
proof -
  obtain n k where g: "L = of_int n * 2 powi k" "- 52 \<le> k" "k \<le> - 1" "L < 2 powi (k + 53)"
    using assms by (rule double_grid_1)
  have one: "(1::real) = of_int (2 ^ nat (- k)) * 2 powi k" using g(2,3) by (intro one_on_grid) simp_all
  have "L - 1 = of_int n * 2 powi k - of_int (2 ^ nat (- k)) * 2 powi k" using g(1) one by simp
  then have a: "L - 1 = of_int (n - 2 ^ nat (- k)) * 2 powi k" by (simp add: algebra_simps)
  have b: "\<bar>L - 1\<bar> < 2 powi (k + 53)" using assms(2) g(4) by simp
  have c: "\<bar>L - 1\<bar> < huge" using assms(2,3) by (intro less_huge [of _ 52]) simp_all
  have d: "- 1074 \<le> k" using g(2) by simp
  show ?thesis using a d b c by (rule finite_double_dyadic)
qed

lemma double_2_minus:
  assumes "finite_double L" "1 \<le> L" "L < 2 ^ 52"
  shows "finite_double (2 - L)"
proof -
  obtain n k where g: "L = of_int n * 2 powi k" "- 52 \<le> k" "k \<le> - 1" "L < 2 powi (k + 53)"
    using assms by (rule double_grid_1)
  have one: "(1::real) = of_int (2 ^ nat (- k)) * 2 powi k" using g(2,3) by (intro one_on_grid) simp_all
  have "2 - L = 2 * (of_int (2 ^ nat (- k)) * 2 powi k) - of_int n * 2 powi k" using g(1) one by simp
  then have a: "2 - L = of_int (2 * 2 ^ nat (- k) - n) * 2 powi k" by (simp add: algebra_simps)
  have b: "\<bar>2 - L\<bar> < 2 powi (k + 53)" using assms(2) g(4) by simp
  have c: "\<bar>2 - L\<bar> < huge" using assms(2,3) by (intro less_huge [of _ 52]) simp_all
  have d: "- 1074 \<le> k" using g(2) by simp
  show ?thesis using a d b c by (rule finite_double_dyadic)
qed

lemma double_twice_minus_1:
  assumes "finite_double L" "1 \<le> L" "L < 2 ^ 52"
  shows "finite_double (2 * L - 1)"
proof -
  obtain n k where g: "L = of_int n * 2 powi k" "- 52 \<le> k" "k \<le> - 1" "L < 2 powi (k + 53)"
    using assms by (rule double_grid_1)
  have one: "(1::real) = of_int (2 ^ nat (- (k + 1))) * 2 powi (k + 1)"
    using g(2,3) by (intro one_on_grid) simp_all
  have two: "(2::real) powi (k + 1) = 2 * 2 powi k" unfolding two_powi_add by simp
  have "2 * L - 1 = of_int n * (2 * 2 powi k) - of_int (2 ^ nat (- (k + 1))) * 2 powi (k + 1)"
    using g(1) one by simp
  then have a: "2 * L - 1 = of_int (n - 2 ^ nat (- (k + 1))) * 2 powi (k + 1)"
    unfolding two by (simp add: algebra_simps)
  have "(2::real) powi (k + 1 + 53) = 2 * 2 powi (k + 53)"
    using two_powi_add [of "k + 53" 1] by (simp add: add.commute add.left_commute)
  then have b: "\<bar>2 * L - 1\<bar> < 2 powi (k + 1 + 53)"
    using assms(2) g(4) by simp
  have c: "\<bar>2 * L - 1\<bar> < huge" using assms(2,3) by (intro less_huge [of _ 53]) simp_all
  have d: "- 1074 \<le> k + 1" using g(2) by simp
  show ?thesis using a d b c by (rule finite_double_dyadic)
qed

lemma finite_double_half [simp]: "finite_double (1 / 2)"
proof -
  have "(1 / 2 :: real) = of_int 1 * 2 powi (- 1)" by (simp add: power_int_def)
  then show ?thesis using huge_gt_1 by (intro finite_doubleI [of _ 1 "- 1"]) simp_all
qed

lemma finite_double_pred_1: "finite_double (1 - 1 / 2 ^ 53)"
proof -
  have "(1 - 1 / 2 ^ 53 :: real) = of_int (2 ^ 53 - 1) * 2 powi (- 53)"
    by (simp add: power_int_def field_simps)
  then show ?thesis using huge_gt_1 by (intro finite_doubleI [of _ "2 ^ 53 - 1" "- 53"]) simp_all
qed

lemma product_below:
  assumes "finite_double z" "finite_double L" "1 \<le> z" "z < L" "L < 2 ^ 52"
  shows "nearest (z * L) \<le> L * L"
proof -
  have L1: "1 \<le> L" using assms(3,4) by simp
  obtain n k where g: "L = of_int n * 2 powi k" "- 52 \<le> k" "k \<le> - 1" "L < 2 powi (k + 53)"
    "2 powi (k + 52) \<le> L" "k = expo L - 52"
    using assms(2) L1 assms(5) by (rule double_grid_1)
  have z52: "z < 2 ^ 52" using assms(4,5) by simp
  obtain m j where h: "z = of_int m * 2 powi j" "- 52 \<le> j" "j \<le> - 1" "z < 2 powi (j + 53)"
    "2 powi (j + 52) \<le> z" "j = expo z - 52"
    using assms(1,3) z52 by (rule double_grid_1)
  have jk: "j \<le> k"
  proof -
    have "expo z \<le> expo L" using assms(3,4) by (intro expo_mono) simp_all
    then show ?thesis using g(6) h(6) by simp
  qed
  show ?thesis
  proof (cases "L = 2 powi (k + 52)")
    case True
    have zl: "z * L = of_int m * 2 powi (j + (k + 52))"
      unfolding True two_powi_add [of j] using h(1) by simp
    have m: "\<bar>m\<bar> < 2 ^ 53"
    proof -
      have "of_int m * 2 powi j < 2 ^ 53 * (2::real) powi j"
        using h(4) h(1) unfolding two_powi_add by (simp add: mult.commute)
      then have "(of_int m :: real) < 2 ^ 53" by simp
      moreover have "0 < of_int m * (2::real) powi j" using h(1) assms(3) by simp
      then have "(0::real) < of_int m"
        using two_powi_pos [of j] by (simp add: zero_less_mult_iff not_less [symmetric] del: two_powi_pos)
      ultimately have "\<bar>of_int m :: real\<bar> < 2 ^ 53" by simp
      then show ?thesis by (metis of_int_abs of_int_less_iff of_int_numeral of_int_power)
    qed
    have "nearest (z * L) = z * L"
      using zl m by (rule nearest_fix) (use g(2) h(2) in simp)
    then show ?thesis using assms(3,4) L1 by (simp add: mult_right_mono)
  next
    case False
    have zq: "z \<le> L - 2 powi k"
    proof (cases "j = k")
      case True
      have "of_int m * 2 powi k < of_int n * (2::real) powi k"
        using assms(4) g(1) h(1) True by simp
      then have "(of_int m :: real) < of_int n" by simp
      then have "m \<le> n - 1" by simp
      then have "(of_int m :: real) \<le> of_int (n - 1)" by (simp only: of_int_le_iff)
      then have "of_int m * 2 powi k \<le> of_int (n - 1) * (2::real) powi k"
        by (intro mult_right_mono) simp_all
      then show ?thesis using g(1) h(1) True by (simp add: algebra_simps)
    next
      case F: False
      then have "j + 53 \<le> k + 52" using jk by simp
      then have "(2::real) powi (j + 53) \<le> 2 powi (k + 52)" by (simp only: two_powi_le_iff)
      then have zlt: "z < 2 powi (k + 52)" using h(4) by linarith
      have "(2::real) powi (k + 52) = of_int (2 ^ 52) * 2 powi k"
        unfolding two_powi_add by simp
      then have "of_int (2 ^ 52) * 2 powi k < of_int n * (2::real) powi k"
        using g(5) False g(1) by simp
      then have "(of_int (2 ^ 52) :: real) < of_int n" by simp
      then have "2 ^ 52 < n" by (simp only: of_int_less_iff)
      then have "2 ^ 52 \<le> n - 1" by simp
      then have "(of_int (2 ^ 52) :: real) \<le> of_int (n - 1)" by (simp only: of_int_le_iff)
      then have "of_int (2 ^ 52) * 2 powi k \<le> of_int (n - 1) * (2::real) powi k"
        by (intro mult_right_mono) simp_all
      then have "2 powi (k + 52) \<le> L - 2 powi k"
        using g(1) \<open>(2::real) powi (k + 52) = of_int (2 ^ 52) * 2 powi k\<close>
        by (simp add: algebra_simps)
      then show ?thesis using zlt by linarith
    qed
    define w where "w = z * L"
    have w1: "1 \<le> w" unfolding w_def using mult_mono [of 1 z 1 L] assms(3) L1 by simp
    have w0: "w \<noteq> 0" using w1 by simp
    have wle: "w \<le> L * L - 2 powi k * L"
    proof -
      have "z * L \<le> (L - 2 powi k) * L" using zq L1 by (intro mult_right_mono) simp_all
      then show ?thesis unfolding w_def by (simp add: algebra_simps)
    qed
    have "0 < 2 powi k * L" using L1 by simp
    then have "w < L * L" using wle by linarith
    also have "L * L < 2 powi (k + 53) * 2 powi (k + 53)"
      using g(4) L1 by (intro mult_strict_mono) simp_all
    finally have "\<bar>w\<bar> < 2 powi ((2 * k + 54 - 1) + 53)"
      using w1 unfolding two_powi_add [symmetric] by (simp add: algebra_simps)
    moreover have "- 1074 \<le> 2 * k + 54 - 1" using g(2) by simp
    ultimately have "quantum w \<le> 2 powi (2 * k + 54 - 1)"
      using w0 by (intro quantum_le(1)) 
    also have "(2::real) powi (2 * k + 54 - 1) = 2 * (2 powi k * 2 powi (k + 52))"
      unfolding two_powi_add [symmetric] using two_powi_add [of "2 * k + 52" 1]
      by (simp add: algebra_simps)
    also have "\<dots> \<le> 2 * (2 powi k * L)" using g(5) by (simp add: mult_left_mono)
    finally have q: "quantum w / 2 \<le> 2 powi k * L" by simp
    have "nearest w \<le> w + quantum w / 2" using nearest_err [of w] by linarith
    then show ?thesis using q wle unfolding w_def by linarith
  qed
qed

text \<open>The operations of the type \<open>double\<close> on finite values.\<close>

lemma dbl_finite: "finite_double x \<Longrightarrow> dbl x = Double (Fin x)"
  by (simp add: dbl_def finite_double_def)

lemma Double_plus: "Double (Fin x) + Double (Fin y) = Double (rd (x + y))"
  by (simp add: plus_double_def)

lemma Double_minus: "Double (Fin x) - Double (Fin y) = Double (rd (x - y))"
  by (simp add: minus_double_def minus_number_def)

lemma Double_times: "Double (Fin x) * Double (Fin y) = Double (rd (x * y))"
  by (simp add: times_double_def)

lemma Double_divide: "y \<noteq> 0 \<Longrightarrow> Double (Fin x) / Double (Fin y) = Double (rd (x / y))"
  by (simp add: divide_double_def)

lemma Double_le: "Double u \<le> Double v \<longleftrightarrow> u \<le> v"
  by (simp add: less_eq_double_def)

lemma Double_less: "Double u < Double v \<longleftrightarrow> u < v"
  by (simp add: less_double_def)

lemmas double_eval =
  dbl_def Double_plus Double_minus Double_times Double_divide Double_le Double_less

section \<open>The power of a nilpotent matrix\<close>

lemma nilpotent_entry:
  assumes "0 < t"
  shows "Fin 0 * (Fin s + Fin t * (Fin x * PInf - Fin s)) = NaN"
proof -
  consider "x = 0" | "0 < x" | "x < 0" by linarith
  then show ?thesis
    using assms by cases (simp_all add: minus_number_def)
qed

lemma nilpotent_entry0:
  assumes "0 < t"
  shows "Fin 0 * (Fin 0 + Fin t * (Fin x * PInf)) = NaN"
proof -
  consider "x = 0" | "0 < x" | "x < 0" by linarith
  then show ?thesis
    using assms by cases simp_all
qed

text \<open>
  Claim C10.  \<open>getMatrixPower2x2\<close> is not total over finite inputs: for a nilpotent
  matrix (trace and determinant zero, so the repeated eigenvalue is 0) the
  repeated-eigenvalue branch divides by the eigenvalue without a guard, and for every
  exponent \<open>t\<close> strictly between 0 and 1 every entry of the result is NaN; no identity
  matrix is substituted.
\<close>

theorem getMatrixPower2x2_nilpotent_NaN:
  assumes "a + d = 0" and "a * d - b * c = 0" and "0 < t" and "t < 1"
  shows "getMatrixPower2x2 (Fin a) (Fin b) (Fin c) (Fin d) (Fin t)
         = \<lparr>m_a = NaN, m_b = NaN, m_c = NaN, m_d = NaN\<rparr>"
proof -
  have tr: "Fin a + Fin d = Fin 0" using assms(1) by simp
  have dt: "Fin a * Fin d - Fin b * Fin c = Fin 0" using assms(2) by simp
  have pw: "Math_pow (Fin 0) (Fin t) = Fin 0" using assms(3) by simp
  show ?thesis
    unfolding getMatrixPower2x2_def Let_def tr dt
    using assms(3)
    by (simp add: EPS_def Math_abs_def pw nilpotent_entry nilpotent_entry0 del: Math_pow.simps)
qed

theorem getMatrixPower2x2_nilpotent_NaN_witness:
  "getMatrixPower2x2 (Fin 0) (Fin 1) (Fin 0) (Fin 0) (Fin (1 / 2))
     = \<lparr>m_a = NaN, m_b = NaN, m_c = NaN, m_d = NaN\<rparr>
   \<and> getMatrixPower2x2 (Fin 0) (Fin 1) (Fin 0) (Fin 0) (Fin (1 / 2)) \<noteq> I2"
  using getMatrixPower2x2_nilpotent_NaN [of 0 0 1 0 "1 / 2"]
  by (simp add: I2_def)

section \<open>The solver on the homography system\<close>

text \<open>
  The loops of the solver act on one row at a time: the elimination of a row rewrites
  that row only, and the exchange rewrites the two rows it exchanges.
\<close>

lemma upt_8:
  "[0..<8] = [0, 1, 2, 3, 4, 5, 6, 7]" "[Suc 0..<8] = [1, 2, 3, 4, 5, 6, 7]"
  "[1..<8] = [1, 2, 3, 4, 5, 6, 7]" "[Suc 1..<8] = [2, 3, 4, 5, 6, 7]"
  "[2..<8] = [2, 3, 4, 5, 6, 7]" "[Suc 2..<8] = [3, 4, 5, 6, 7]"
  "[3..<8] = [3, 4, 5, 6, 7]" "[Suc 3..<8] = [4, 5, 6, 7]"
  "[4..<8] = [4, 5, 6, 7]" "[Suc 4..<8] = [5, 6, 7]"
  "[5..<8] = [5, 6, 7]" "[Suc 5..<8] = [6, 7]"
  "[6..<8] = [6, 7]" "[Suc 6..<8] = [7]"
  "[7..<8] = [7]" "[Suc 7..<8] = []" "[Suc (Suc 0)..<8] = [2, 3, 4, 5, 6, 7]"
  by (simp_all add: upt_rec)

lemma elim_fold_row:
  assumes "k \<noteq> i" "k < length A"
  shows "fold (\<lambda>j A. if i = j then setA A k j (Fin 0) else setA A k j (A ! k ! j + c * (A ! i ! j))) js A
       = A[k := fold (\<lambda>j row. if i = j then row[j := Fin 0] else row[j := row ! j + c * (A ! i ! j)]) js (A ! k)]"
  using assms
proof (induction js arbitrary: A)
  case Nil
  then show ?case by simp
next
  case (Cons j js)
  let ?v = "if i = j then Fin 0 else A ! k ! j + c * (A ! i ! j)"
  let ?A' = "setA A k j ?v"
  have a: "?A' ! i = A ! i" using Cons.prems by (simp add: setA_def)
  have b: "?A' ! k = (A ! k)[j := ?v]" using Cons.prems by (simp add: setA_def)
  have c: "length ?A' = length A" by (simp add: setA_def)
  have d: "?A'[k := u] = A[k := u]" for u by (simp add: setA_def)
  have "fold (\<lambda>j A. if i = j then setA A k j (Fin 0) else setA A k j (A ! k ! j + c * (A ! i ! j))) (j # js) A
      = fold (\<lambda>j A. if i = j then setA A k j (Fin 0) else setA A k j (A ! k ! j + c * (A ! i ! j))) js ?A'"
    by simp
  also have "\<dots> = ?A'[k := fold (\<lambda>j row. if i = j then row[j := Fin 0] else row[j := row ! j + c * (?A' ! i ! j)]) js (?A' ! k)]"
    using Cons.IH [of ?A'] Cons.prems c by simp
  also have "\<dots> = A[k := fold (\<lambda>j row. if i = j then row[j := Fin 0] else row[j := row ! j + c * (A ! i ! j)]) (j # js) (A ! k)]"
    unfolding a b d by simp
  finally show ?case .
qed

lemma elimRow_row:
  assumes "k \<noteq> i" "k < length A"
  shows "elimRow n i k (A, B) =
     (A[k := fold (\<lambda>j row. if i = j then row[j := Fin 0]
                              else row[j := row ! j + (- (A ! k ! i) / (A ! i ! i)) * (A ! i ! j)]) [i..<n] (A ! k)],
      B[k := B ! k + (- (A ! k ! i) / (A ! i ! i)) * (B ! i)])"
  using elim_fold_row [OF assms] by (simp add: elimRow_def Let_def)

lemma swap_fold_same:
  "fold (\<lambda>k A. setA (setA A i k (A ! i ! k)) i k (A ! i ! k)) js A = A"
  by (induction js arbitrary: A) (simp_all add: setA_def)

lemma swapRows_same: "swapRows n i i A = A"
  by (simp add: swapRows_def swap_fold_same)

lemma swap_fold_rows:
  assumes "r \<noteq> i" "r < length A" "i < length A" "distinct js"
  shows "fold (\<lambda>k A. setA (setA A r k (A ! i ! k)) i k (A ! r ! k)) js A
       = A[r := fold (\<lambda>k row. row[k := A ! i ! k]) js (A ! r),
           i := fold (\<lambda>k row. row[k := A ! r ! k]) js (A ! i)]"
  using assms
proof (induction js arbitrary: A)
  case Nil
  then show ?case by simp
next
  case (Cons k js)
  let ?A' = "setA (setA A r k (A ! i ! k)) i k (A ! r ! k)"
  have r': "?A' ! r = (A ! r)[k := A ! i ! k]" using Cons.prems by (simp add: setA_def)
  have i': "?A' ! i = (A ! i)[k := A ! r ! k]" using Cons.prems by (simp add: setA_def)
  have len: "length ?A' = length A" by (simp add: setA_def)
  have ov: "?A'[r := u, i := v] = A[r := u, i := v]" for u v
    using Cons.prems by (simp add: setA_def list_update_swap)
  have ne: "xs[k := v] ! k' = xs ! k'" if "k' \<in> set js" for xs :: "number list" and v k'
    using that Cons.prems(4) by (cases "k = k'") auto
  have f1: "fold (\<lambda>k' row. row[k' := (A ! i)[k := A ! r ! k] ! k']) js u = fold (\<lambda>k' row. row[k' := A ! i ! k']) js u" for u
    using Cons.prems by (intro fold_cong) (simp_all add: ne)
  have f2: "fold (\<lambda>k' row. row[k' := (A ! r)[k := A ! i ! k] ! k']) js u = fold (\<lambda>k' row. row[k' := A ! r ! k']) js u" for u
    using Cons.prems by (intro fold_cong) (simp_all add: ne)
  have "fold (\<lambda>k A. setA (setA A r k (A ! i ! k)) i k (A ! r ! k)) (k # js) A
      = fold (\<lambda>k A. setA (setA A r k (A ! i ! k)) i k (A ! r ! k)) js ?A'"
    by simp
  also have "\<dots> = ?A'[r := fold (\<lambda>k row. row[k := ?A' ! i ! k]) js (?A' ! r),
                       i := fold (\<lambda>k row. row[k := ?A' ! r ! k]) js (?A' ! i)]"
    using Cons.IH [of ?A'] Cons.prems len by simp
  also have "\<dots> = A[r := fold (\<lambda>k row. row[k := A ! i ! k]) (k # js) (A ! r),
                     i := fold (\<lambda>k row. row[k := A ! r ! k]) (k # js) (A ! i)]"
    unfolding ov r' i' f1 f2 by simp
  finally show ?case .
qed

lemma swapRows_rows:
  assumes "r \<noteq> i" "r < length A" "i < length A"
  shows "swapRows n i r A
       = A[r := fold (\<lambda>k row. row[k := A ! i ! k]) [i..<n] (A ! r),
           i := fold (\<lambda>k row. row[k := A ! r ! k]) [i..<n] (A ! i)]"
  using swap_fold_rows [OF assms, of "[i..<n]"] by (simp add: swapRows_def)

text \<open>
  For a source rectangle with sides of at least \<open>1e-10\<close> the first six steps of the
  forward pass take the same pivots (\<open>w\<close>, \<open>h\<close>, 1, \<open>w\<close>, \<open>h\<close>, 1) for every quad with
  finite corners, and leave a 2x2 system in the last two unknowns.
\<close>

lemma systems_A:
  "map (take 8) (systems (Fin w) (Fin h) (FQuad (x0, y0) (x1, y1) (x2, y2) (x3, y3))) =
     [[Fin 0, Fin 0, Fin 1, Fin 0, Fin 0, Fin 0, Fin 0, Fin 0],
      [Fin 0, Fin 0, Fin 0, Fin 0, Fin 0, Fin 1, Fin 0, Fin 0],
      [Fin w, Fin 0, Fin 1, Fin 0, Fin 0, Fin 0, Fin (- (w * x1)), Fin 0],
      [Fin 0, Fin 0, Fin 0, Fin w, Fin 0, Fin 1, Fin (- (w * y1)), Fin 0],
      [Fin w, Fin h, Fin 1, Fin 0, Fin 0, Fin 0, Fin (- (w * x2)), Fin (- (h * x2))],
      [Fin 0, Fin 0, Fin 0, Fin w, Fin h, Fin 1, Fin (- (w * y2)), Fin (- (h * y2))],
      [Fin 0, Fin h, Fin 1, Fin 0, Fin 0, Fin 0, Fin 0, Fin (- (h * x3))],
      [Fin 0, Fin 0, Fin 0, Fin 0, Fin h, Fin 1, Fin 0, Fin (- (h * y3))]]"
  by (simp add: systems_def FQuad_def FPoint_def Let_def)

lemma systems_B:
  "map (\<lambda>r. r ! 8) (systems (Fin w) (Fin h) (FQuad (x0, y0) (x1, y1) (x2, y2) (x3, y3))) =
     [Fin x0, Fin y0, Fin x1, Fin y1, Fin x2, Fin y2, Fin x3, Fin y3]"
  by (simp add: systems_def FQuad_def FPoint_def Let_def)

lemma forwardElim_homography:
  assumes "1 / 10000000000 \<le> w" "1 / 10000000000 \<le> h"
  shows "forwardElim 8 [0, 1, 2, 3, 4, 5, 6, 7]
    ([[Fin 0, Fin 0, Fin 1, Fin 0, Fin 0, Fin 0, Fin 0, Fin 0],
      [Fin 0, Fin 0, Fin 0, Fin 0, Fin 0, Fin 1, Fin 0, Fin 0],
      [Fin w, Fin 0, Fin 1, Fin 0, Fin 0, Fin 0, Fin (- (w * x1)), Fin 0],
      [Fin 0, Fin 0, Fin 0, Fin w, Fin 0, Fin 1, Fin (- (w * y1)), Fin 0],
      [Fin w, Fin h, Fin 1, Fin 0, Fin 0, Fin 0, Fin (- (w * x2)), Fin (- (h * x2))],
      [Fin 0, Fin 0, Fin 0, Fin w, Fin h, Fin 1, Fin (- (w * y2)), Fin (- (h * y2))],
      [Fin 0, Fin h, Fin 1, Fin 0, Fin 0, Fin 0, Fin 0, Fin (- (h * x3))],
      [Fin 0, Fin 0, Fin 0, Fin 0, Fin h, Fin 1, Fin 0, Fin (- (h * y3))]],
     [Fin x0, Fin y0, Fin x1, Fin y1, Fin x2, Fin y2, Fin x3, Fin y3])
   = forwardElim 8 [6, 7]
    ([[Fin w, Fin 0, Fin 1, Fin 0, Fin 0, Fin 0, Fin (- (w * x1)), Fin 0],
      [Fin 0, Fin h, Fin 0, Fin 0, Fin 0, Fin 0, Fin (w * x1 - w * x2), Fin (- (h * x2))],
      [Fin 0, Fin 0, Fin 1, Fin 0, Fin 0, Fin 0, Fin 0, Fin 0],
      [Fin 0, Fin 0, Fin 0, Fin w, Fin 0, Fin 1, Fin (- (w * y1)), Fin 0],
      [Fin 0, Fin 0, Fin 0, Fin 0, Fin h, Fin 0, Fin (w * y1 - w * y2), Fin (- (h * y2))],
      [Fin 0, Fin 0, Fin 0, Fin 0, Fin 0, Fin 1, Fin 0, Fin 0],
      [Fin 0, Fin 0, Fin 0, Fin 0, Fin 0, Fin 0, Fin (w * x2 - w * x1), Fin (h * x2 - h * x3)],
      [Fin 0, Fin 0, Fin 0, Fin 0, Fin 0, Fin 0, Fin (w * y2 - w * y1), Fin (h * y2 - h * y3)]],
     [Fin x1, Fin (x2 - x1), Fin x0, Fin y1, Fin (y2 - y1), Fin y0,
      Fin (x3 + (x1 - x2) - x0), Fin (y3 + (y1 - y2) - y0)])"
  using assms
  by (simp add: findPivot_def swapRows_rows swapRows_same swapB_def elimRow_row eliminate_def
      Math_abs_def upt_8 Let_def
      forwardElim.simps(2) [of _ 0] forwardElim.simps(2) [of _ "Suc 0"]
      forwardElim.simps(2) [of _ 2] forwardElim.simps(2) [of _ 3]
      forwardElim.simps(2) [of _ 4] forwardElim.simps(2) [of _ 5]
      del: forwardElim.simps)

lemma replicate_8: "replicate 8 u = [u, u, u, u, u, u, u, u]"
  by (simp add: numeral_eq_Suc)

lemma solve_homography:
  assumes "1 / 10000000000 \<le> w" "1 / 10000000000 \<le> h"
  shows "solveLinearSystem
           (map (take 8) (systems (Fin w) (Fin h) (FQuad (x0, y0) (x1, y1) (x2, y2) (x3, y3))))
           (map (\<lambda>r. r ! 8) (systems (Fin w) (Fin h) (FQuad (x0, y0) (x1, y1) (x2, y2) (x3, y3))))
   = (case forwardElim 8 [6, 7]
    ([[Fin w, Fin 0, Fin 1, Fin 0, Fin 0, Fin 0, Fin (- (w * x1)), Fin 0],
      [Fin 0, Fin h, Fin 0, Fin 0, Fin 0, Fin 0, Fin (w * x1 - w * x2), Fin (- (h * x2))],
      [Fin 0, Fin 0, Fin 1, Fin 0, Fin 0, Fin 0, Fin 0, Fin 0],
      [Fin 0, Fin 0, Fin 0, Fin w, Fin 0, Fin 1, Fin (- (w * y1)), Fin 0],
      [Fin 0, Fin 0, Fin 0, Fin 0, Fin h, Fin 0, Fin (w * y1 - w * y2), Fin (- (h * y2))],
      [Fin 0, Fin 0, Fin 0, Fin 0, Fin 0, Fin 1, Fin 0, Fin 0],
      [Fin 0, Fin 0, Fin 0, Fin 0, Fin 0, Fin 0, Fin (w * x2 - w * x1), Fin (h * x2 - h * x3)],
      [Fin 0, Fin 0, Fin 0, Fin 0, Fin 0, Fin 0, Fin (w * y2 - w * y1), Fin (h * y2 - h * y3)]],
     [Fin x1, Fin (x2 - x1), Fin x0, Fin y1, Fin (y2 - y1), Fin y0,
      Fin (x3 + (x1 - x2) - x0), Fin (y3 + (y1 - y2) - y0)]) of
       None \<Rightarrow> replicate 8 (Fin 0)
     | Some AB \<Rightarrow> backSubst 8 (fst AB) (snd AB))"
proof -
  have len: "length [Fin x0, Fin y0, Fin x1, Fin y1, Fin x2, Fin y2, Fin x3, Fin y3] = 8"
    by simp
  show ?thesis
    unfolding solveLinearSystem_def systems_A systems_B Let_def len upt_8(1)
      forwardElim_homography [OF assms] ..
qed

lemma computeHomography_degenerate:
  assumes "1 / 10000000000 \<le> w" "1 / 10000000000 \<le> h"
    and "\<bar>w * x2 - w * x1\<bar> < 1 / 10000000000" "\<bar>w * y2 - w * y1\<bar> < 1 / 10000000000"
  shows "computeHomography (Fin w) (Fin h) (FQuad (x0, y0) (x1, y1) (x2, y2) (x3, y3))
       = [Fin 0, Fin 0, Fin 0, Fin 0, Fin 0, Fin 0, Fin 0, Fin 0, Fin 1]"
  unfolding computeHomography_def Let_def solve_homography [OF assms(1,2)]
  using assms(3,4)
  by (simp add: findPivot_def Math_abs_def upt_8 Let_def replicate_8)

text \<open>
  On the singular return of the forward pass the solver returns the zero vector, which
  has no entry that is NaN or infinite: for every input, \<open>computeHomography\<close> appends 1
  to it.
\<close>

lemma solveLinearSystem_singular:
  assumes "forwardElim (length B) [0..<length B] (A, B) = None"
  shows "solveLinearSystem A B = replicate (length B) (Fin 0)"
  using assms by (simp add: solveLinearSystem_def)

lemma computeHomography_singular:
  assumes "forwardElim 8 [0..<8]
             (map (take 8) (systems w h dst), map (\<lambda>r. r ! 8) (systems w h dst)) = None"
  shows "computeHomography w h dst = [Fin 0, Fin 0, Fin 0, Fin 0, Fin 0, Fin 0, Fin 0, Fin 0, Fin 1]"
proof -
  have len: "length (map (\<lambda>r. r ! 8) (systems w h dst)) = 8"
    by (simp add: systems_def Let_def)
  have "solveLinearSystem (map (take 8) (systems w h dst)) (map (\<lambda>r. r ! 8) (systems w h dst))
        = replicate 8 (Fin 0)"
    using solveLinearSystem_singular [of "map (\<lambda>r. r ! 8) (systems w h dst)"] assms
    unfolding len by simp
  then show ?thesis
    by (simp add: computeHomography_def Let_def replicate_8)
qed

text \<open>
  Claim C1.  A quad whose top-right and bottom-right corners coincide gives a singular
  system: the pivot of the seventh step is 0.  On the 800x600 image the solver returns
  the zero vector, as the claim says, and \<open>computeHomography\<close> returns
  \<open>[0, 0, 0, 0, 0, 0, 0, 0, 1]\<close>, which is not the identity homography.
\<close>

theorem computeHomography_singular_not_identity:
  "solveLinearSystem
     (map (take 8) (systems (Fin 800) (Fin 600) (FQuad (200, 150) (600, 150) (600, 150) (200, 450))))
     (map (\<lambda>r. r ! 8) (systems (Fin 800) (Fin 600) (FQuad (200, 150) (600, 150) (600, 150) (200, 450))))
   = replicate 8 (Fin 0)
   \<and> computeHomography (Fin 800) (Fin 600) (FQuad (200, 150) (600, 150) (600, 150) (200, 450))
     = [Fin 0, Fin 0, Fin 0, Fin 0, Fin 0, Fin 0, Fin 0, Fin 0, Fin 1]
   \<and> computeHomography (Fin 800) (Fin 600) (FQuad (200, 150) (600, 150) (600, 150) (200, 450))
     \<noteq> identity3"
proof -
  have s: "solveLinearSystem
     (map (take 8) (systems (Fin 800) (Fin 600) (FQuad (200, 150) (600, 150) (600, 150) (200, 450))))
     (map (\<lambda>r. r ! 8) (systems (Fin 800) (Fin 600) (FQuad (200, 150) (600, 150) (600, 150) (200, 450))))
   = replicate 8 (Fin 0)"
    by (subst solve_homography) (simp_all add: findPivot_def Math_abs_def upt_8 Let_def)
  have c: "computeHomography (Fin 800) (Fin 600) (FQuad (200, 150) (600, 150) (600, 150) (200, 450))
     = [Fin 0, Fin 0, Fin 0, Fin 0, Fin 0, Fin 0, Fin 0, Fin 0, Fin 1]"
    by (rule computeHomography_degenerate) simp_all
  show ?thesis using s c by (simp add: identity3_def)
qed

text \<open>
  For every axis-aligned rectangle \<open>[0, w] x [0, h]\<close> mapped to itself, with \<open>w\<close>, \<open>h\<close> and
  \<open>w * h\<close> at least \<open>1e-10\<close> (the pivot tolerance of the solver), no pivot is below the
  tolerance and \<open>computeHomography\<close> returns the identity matrix.
\<close>

lemma computeHomography_rectangle:
  assumes "1 / 10000000000 \<le> w" "1 / 10000000000 \<le> h" "1 / 10000000000 \<le> w * h"
  shows "computeHomography (Fin w) (Fin h) (FQuad (0, 0) (w, 0) (w, h) (0, h)) = identity3"
proof -
  have wh: "\<not> w * h * 10000000000 < 1" "\<not> h * w * 10000000000 < 1"
    "0 < w" "0 < h" "w \<noteq> 0" "h \<noteq> 0"
    using assms by (simp_all add: mult.commute)
  show ?thesis
    unfolding computeHomography_def Let_def solve_homography [OF assms(1,2)]
    using wh
    by (simp add: findPivot_def swapRows_rows swapRows_same swapB_def elimRow_row eliminate_def
        Math_abs_def upt_8 Let_def backSubst_def identity3_def replicate_8)
qed

lemma computeHomography_rectangle_800_600:
  "computeHomography (Fin 800) (Fin 600) (FQuad (0, 0) (800, 0) (800, 600) (0, 600)) = identity3"
  using computeHomography_rectangle [of 800 600] by simp


section \<open>The inverse of a 3x3 matrix\<close>










section \<open>The loop scale\<close>

lemma areaQuad_Fin:
  "areaQuad (Fin iw) (Fin ih) (FQuad a b c d) =
     Fin (\<bar>fst a * iw * (snd b * ih) + fst b * iw * (snd c * ih) + fst c * iw * (snd d * ih)
            - (snd a * ih * (fst b * iw) + snd b * ih * (fst c * iw) + snd c * ih * (fst d * iw))\<bar> / 2)"
  by (simp add: areaQuad_def getQuadArea_def qPoints_def FQuad_def FPoint_def Math_abs_def)

lemma loopScale_Fin:
  assumes "0 \<le> iw * ih" "areaQuad (Fin iw) (Fin ih) q = Fin r"
  shows "loopScale (Fin iw) (Fin ih) q = Fin (sqrt (iw * ih / max 1 r))"
proof -
  have m: "Math_max (Fin 1) (Fin r) = Fin (max 1 r)" by (simp add: max_def)
  have "max 1 r \<noteq> 0" by (simp add: max_def)
  moreover have "\<not> iw * ih / max 1 r < 0"
    using assms(1) by (simp add: max_def divide_nonneg_pos not_less)
  ultimately show ?thesis
    unfolding loopScale_def Let_def assms(2) m by simp
qed

lemma quadArea_Fin:
  "quadArea (Fin iw) (Fin ih) (FQuad a b c d) =
     Fin (\<bar>fst a * iw * (snd b * ih) + fst b * iw * (snd c * ih) + fst c * iw * (snd d * ih)
              + fst d * iw * (snd a * ih)
            - (snd a * ih * (fst b * iw) + snd b * ih * (fst c * iw) + snd c * ih * (fst d * iw)
              + snd d * ih * (fst a * iw))\<bar> / 2)"
  by (simp add: quadArea_def polygonArea_def qPoints_def FQuad_def FPoint_def Math_abs_def)

text \<open>
  Claim C8.  On the 800x600 image the quad with corners \<open>(1/4, 1/4)\<close> and \<open>(3/4, 11/16)\<close>
  has the smaller area, 105000 square pixels against the 120000 of the quad with corners
  \<open>(0, 0)\<close> and \<open>(1/2, 1/2)\<close>, and yet the smaller loop scale: \<open>getQuadArea\<close> returns 131250
  for it, because of its product \<open>p4.y * p1.x\<close>, and the loop scale is the root of
  \<open>480000 / 131250\<close>, below the 2 of the larger quad.  Both areas are far above the value 1
  at which the source clamps the area.
\<close>

theorem loopScale_not_monotone:
  "quadArea (Fin 800) (Fin 600) (FQuad (1 / 4, 1 / 4) (3 / 4, 1 / 4) (3 / 4, 11 / 16) (1 / 4, 11 / 16))
     = Fin 105000
   \<and> quadArea (Fin 800) (Fin 600) (FQuad (0, 0) (1 / 2, 0) (1 / 2, 1 / 2) (0, 1 / 2)) = Fin 120000
   \<and> areaQuad (Fin 800) (Fin 600) (FQuad (1 / 4, 1 / 4) (3 / 4, 1 / 4) (3 / 4, 11 / 16) (1 / 4, 11 / 16))
     = Fin 131250
   \<and> areaQuad (Fin 800) (Fin 600) (FQuad (0, 0) (1 / 2, 0) (1 / 2, 1 / 2) (0, 1 / 2)) = Fin 120000
   \<and> loopScale (Fin 800) (Fin 600) (FQuad (0, 0) (1 / 2, 0) (1 / 2, 1 / 2) (0, 1 / 2)) = Fin 2
   \<and> loopScale (Fin 800) (Fin 600) (FQuad (1 / 4, 1 / 4) (3 / 4, 1 / 4) (3 / 4, 11 / 16) (1 / 4, 11 / 16))
     = Fin (sqrt (128 / 35))
   \<and> loopScale (Fin 800) (Fin 600) (FQuad (1 / 4, 1 / 4) (3 / 4, 1 / 4) (3 / 4, 11 / 16) (1 / 4, 11 / 16))
     < loopScale (Fin 800) (Fin 600) (FQuad (0, 0) (1 / 2, 0) (1 / 2, 1 / 2) (0, 1 / 2))"
proof -
  have a1: "areaQuad (Fin 800) (Fin 600)
              (FQuad (1 / 4, 1 / 4) (3 / 4, 1 / 4) (3 / 4, 11 / 16) (1 / 4, 11 / 16)) = Fin 131250"
    by (simp add: areaQuad_Fin)
  have a2: "areaQuad (Fin 800) (Fin 600) (FQuad (0, 0) (1 / 2, 0) (1 / 2, 1 / 2) (0, 1 / 2))
              = Fin 120000"
    by (simp add: areaQuad_Fin)
  have s1: "loopScale (Fin 800) (Fin 600)
              (FQuad (1 / 4, 1 / 4) (3 / 4, 1 / 4) (3 / 4, 11 / 16) (1 / 4, 11 / 16))
            = Fin (sqrt (128 / 35))"
    using loopScale_Fin [OF _ a1] by simp
  have "sqrt 4 = 2" using real_sqrt_abs [of 2] by simp
  then have s2: "loopScale (Fin 800) (Fin 600) (FQuad (0, 0) (1 / 2, 0) (1 / 2, 1 / 2) (0, 1 / 2))
            = Fin 2"
    using loopScale_Fin [OF _ a2] by simp
  have "sqrt (128 / 35) < sqrt 4" by (subst real_sqrt_less_iff) simp
  then have lt: "sqrt (128 / 35) < 2" using \<open>sqrt 4 = 2\<close> by simp
  show ?thesis unfolding a1 a2 s1 s2 using lt by (simp add: quadArea_Fin)
qed

section \<open>The export scenario\<close>

lemma areaQuad_scenario: "areaQuad (Fin 800) (Fin 600) INITIAL_QUAD = Fin 150000"
  by (simp add: areaQuad_def getQuadArea_def qPoints_def INITIAL_QUAD_def Math_abs_def)

lemma loopScale_scenario: "loopScale (Fin 800) (Fin 600) INITIAL_QUAD = Fin (sqrt (16 / 5))"
  by (simp add: loopScale_def areaQuad_scenario)

lemma sqrt_16_5_neq_2: "sqrt (16 / 5) \<noteq> 2"
proof
  assume "sqrt (16 / 5) = 2"
  then have "(sqrt (16 / 5))\<^sup>2 = 2\<^sup>2" by simp
  then show False by simp
qed

lemma sqrt_16_5_gt_1: "1 < sqrt (16 / 5)"
  by (rule real_less_rsqrt) simp

lemma exportPhase_half:
  assumes "1 < s"
  shows "exportPhase (Fin s) True IN (Fin 30) (Fin 60) = Fin (ln (1 + (s - 1) / 2) / ln s)"
proof -
  have a: "0 < 1 + (s - 1) / 2" using assms by (simp add: field_simps)
  have b: "ln s \<noteq> 0" using assms by simp
  have c: "0 < s" using assms by linarith
  have z: "Fin 1 + (Fin s - Fin 1) * (Fin 30 / Fin 60) = Fin (1 + (s - 1) / 2)" by simp
  show ?thesis
    unfolding exportPhase_def Let_def z using a b c by simp
qed

lemma half_phase_bounds:
  fixes s :: real
  assumes "1 < s"
  shows "0 \<le> ln (1 + (s - 1) / 2) / ln s" and "ln (1 + (s - 1) / 2) / ln s < 1"
proof -
  define m where "m = 1 + (s - 1) / 2"
  have a: "1 < m" using assms by (simp add: m_def field_simps)
  have b: "m < s" using assms by (simp add: m_def field_simps)
  have ls: "0 < ln s" using assms by simp
  have "0 < ln m" using a by simp
  then show "0 \<le> ln (1 + (s - 1) / 2) / ln s" unfolding m_def [symmetric] using ls by simp
  have "ln m < ln s" using a b by simp
  then show "ln (1 + (s - 1) / 2) / ln s < 1" unfolding m_def [symmetric] using ls by simp
qed

lemma renderPhase_override:
  assumes "0 \<le> p" "p < 1"
  shows "renderPhase scale zoomLevel (Some (Fin p)) = Fin p"
proof -
  have "\<lfloor>p\<rfloor> = 0" using assms by (simp add: floor_eq_iff)
  then show ?thesis by (simp add: renderPhase_def)
qed

text \<open>With a loop scale of 2 the phase of frame 30 of 60 is the one the scenario names.\<close>

lemma exportPhase_scale_2: "exportPhase (Fin 2) True IN (Fin 30) (Fin 60) = Fin (ln (3 / 2) / ln 2)"
  by (simp add: exportPhase_def)

text \<open>
  Claim C6.  The scenario on the code: for the 800x600 image and the initial quad,
  \<open>getQuadArea\<close> returns 150000 and not the area 120000 of the quad, so the loop scale is
  the square root of 3.2 and not 2; the duration is 2 seconds, the export has 60 frames
  with a delay of 33 ms, and the phase of frame 30, which \<open>renderCanvas\<close> keeps as it
  is, is computed from the loop scale of the code.
\<close>

theorem export_scenario:
  "areaQuad (Fin 800) (Fin 600) INITIAL_QUAD = Fin 150000
   \<and> loopScale (Fin 800) (Fin 600) INITIAL_QUAD = Fin (sqrt (16 / 5))
   \<and> loopScale (Fin 800) (Fin 600) INITIAL_QUAD \<noteq> Fin 2
   \<and> exportDuration (loopScale (Fin 800) (Fin 600) INITIAL_QUAD) (Fin 1) True = Fin 2
   \<and> totalFrames (loopScale (Fin 800) (Fin 600) INITIAL_QUAD) (Fin 1) True = Fin 60
   \<and> delay = Fin 33
   \<and> exportPhase (loopScale (Fin 800) (Fin 600) INITIAL_QUAD) True IN (Fin 30) (Fin 60)
       = Fin (ln (1 + (sqrt (16 / 5) - 1) / 2) / ln (sqrt (16 / 5)))
   \<and> renderPhase (loopScale (Fin 800) (Fin 600) INITIAL_QUAD) (Fin 1)
        (Some (exportPhase (loopScale (Fin 800) (Fin 600) INITIAL_QUAD) True IN (Fin 30) (Fin 60)))
       = Fin (ln (1 + (sqrt (16 / 5) - 1) / 2) / ln (sqrt (16 / 5)))"
proof -
  have d: "exportDuration (loopScale (Fin 800) (Fin 600) INITIAL_QUAD) (Fin 1) True = Fin 2"
    by (simp add: exportDuration_def)
  have f: "totalFrames (loopScale (Fin 800) (Fin 600) INITIAL_QUAD) (Fin 1) True = Fin 60"
    by (simp add: totalFrames_def d targetFPS_def)
  have g: "delay = Fin 33"
    by (simp add: delay_def targetFPS_def)
  have p: "exportPhase (Fin (sqrt (16 / 5))) True IN (Fin 30) (Fin 60)
       = Fin (ln (1 + (sqrt (16 / 5) - 1) / 2) / ln (sqrt (16 / 5)))"
    by (rule exportPhase_half [OF sqrt_16_5_gt_1])
  have q: "renderPhase (Fin (sqrt (16 / 5))) (Fin 1)
        (Some (Fin (ln (1 + (sqrt (16 / 5) - 1) / 2) / ln (sqrt (16 / 5)))))
       = Fin (ln (1 + (sqrt (16 / 5) - 1) / 2) / ln (sqrt (16 / 5)))"
    by (rule renderPhase_override [OF half_phase_bounds [OF sqrt_16_5_gt_1]])
  show ?thesis
    using d f g sqrt_16_5_neq_2
    unfolding loopScale_scenario p q areaQuad_scenario
    by simp
qed

section \<open>The animation tick\<close>

text \<open>The step of a tick, when it is within its bound.\<close>

lemma constant_step:
  assumes "0 \<le> s * t" "dbl s * dbl t * dbl (5 / 10) \<le> dbl 1" "finite_double s" "finite_double t"
  obtains c where "dbl s * dbl t * dbl (5 / 10) = Double (Fin c)" "0 \<le> c" "c \<le> 1" "finite_double c"
proof -
  have h: "dbl (5 / 10) = Double (Fin (1 / 2))" using dbl_finite [OF finite_double_half] by simp
  have o: "dbl 1 = Double (Fin 1)" by (simp add: dbl_finite)
  have st: "dbl s * dbl t = Double (rd (s * t))"
    using assms(3,4) by (simp add: dbl_finite Double_times)
  have ge: "Fin 0 \<le> rd (s * t)" using assms(1) by (intro rd_ge) simp_all
  show ?thesis
  proof (cases "rd (s * t)")
    case (Fin p)
    have p: "0 \<le> p" using ge Fin by simp
    have e: "dbl s * dbl t * dbl (5 / 10) = Double (rd (p / 2))"
      unfolding st Fin h by (simp add: Double_times)
    have "Fin 0 \<le> rd (p / 2)" using p by (intro rd_ge) simp_all
    moreover have "rd (p / 2) \<le> Fin 1" using assms(2) unfolding e o Double_le .
    ultimately obtain c where c: "rd (p / 2) = Fin c" "0 \<le> c" "c \<le> 1"
      by (cases "rd (p / 2)") auto
    show ?thesis using e c rd_idem [OF c(1)] by (intro that [of c]) simp_all
  next
    case PInf
    have "dbl s * dbl t * dbl (5 / 10) = Double PInf"
      unfolding st PInf h by (simp add: times_double_def)
    then show ?thesis using assms(2) unfolding o by (simp add: Double_le)
  next
    case NInf
    then show ?thesis using ge by simp
  next
    case NaN
    then show ?thesis using ge by simp
  qed
qed

lemma multiplicative_step:
  assumes "0 \<le> s * t" "dbl 1 + dbl s * dbl t \<le> dbl L" "finite_double s" "finite_double t"
    "finite_double L"
  obtains c where "dbl 1 + dbl s * dbl t = Double (Fin c)" "1 \<le> c" "c \<le> L" "finite_double c"
proof -
  have o: "dbl 1 = Double (Fin 1)" by (simp add: dbl_finite)
  have l: "dbl L = Double (Fin L)" using assms(5) by (simp add: dbl_finite)
  have st: "dbl s * dbl t = Double (rd (s * t))"
    using assms(3,4) by (simp add: dbl_finite Double_times)
  have ge: "Fin 0 \<le> rd (s * t)" using assms(1) by (intro rd_ge) simp_all
  show ?thesis
  proof (cases "rd (s * t)")
    case (Fin p)
    have p: "0 \<le> p" using ge Fin by simp
    have e: "dbl 1 + dbl s * dbl t = Double (rd (1 + p))"
      unfolding st Fin o by (simp add: Double_plus)
    have "Fin 1 \<le> rd (1 + p)" using p by (intro rd_ge) simp_all
    moreover have "rd (1 + p) \<le> Fin L" using assms(2) unfolding e l Double_le .
    ultimately obtain c where c: "rd (1 + p) = Fin c" "1 \<le> c" "c \<le> L"
      by (cases "rd (1 + p)") auto
    show ?thesis using e c rd_idem [OF c(1)] by (intro that [of c]) simp_all
  next
    case PInf
    have "dbl 1 + dbl s * dbl t = Double PInf"
      unfolding st PInf o by (simp add: plus_double_def)
    then show ?thesis using assms(2) unfolding l by (simp add: Double_le)
  next
    case NInf
    then show ?thesis using ge by simp
  next
    case NaN
    then show ?thesis using ge by simp
  qed
qed

text \<open>The four moving branches of a tick, for a step within its bound.\<close>

lemma tick_constant_in:
  assumes d: "finite_double z" "finite_double L" "finite_double c"
    and r: "1 \<le> z" "z < L" "L < 2 ^ 52" "0 \<le> c" "c \<le> 1"
  defines "z' \<equiv> Double (Fin z) + Double (Fin c) * (Double (Fin L) - Double (Fin 1))"
  shows "Double (Fin 1) \<le> (if Double (Fin L) \<le> z' then Double (Fin 1) + (z' - Double (Fin L)) else z')
       \<and> (if Double (Fin L) \<le> z' then Double (Fin 1) + (z' - Double (Fin L)) else z') \<le> Double (Fin L)"
proof -
  have L1: "1 \<le> L" using r by simp
  have dL1: "finite_double (L - 1)" using d(2) L1 r(3) by (rule double_minus_1)
  have d2L: "finite_double (2 * L - 1)" using d(2) L1 r(3) by (rule double_twice_minus_1)
  have e1: "Double (Fin L) - Double (Fin 1) = Double (Fin (L - 1))"
    using dL1 by (simp add: Double_minus finite_double_def)
  obtain i where i: "rd (c * (L - 1)) = Fin i" "0 \<le> i" "i \<le> L - 1" "finite_double i"
    using rd_between [of 0 "c * (L - 1)" "L - 1"] dL1 r L1
    by (auto simp: mult_left_le_one_le)
  obtain y where y: "rd (z + i) = Fin y" "z \<le> y" "y \<le> 2 * L - 1" "finite_double y"
    using rd_between [of z "z + i" "2 * L - 1"] d(1) d2L i r by auto
  have z': "z' = Double (Fin y)"
    unfolding z'_def e1 Double_times i(1) Double_plus y(1) ..
  show ?thesis
  proof (cases "L \<le> y")
    case True
    obtain w where w: "rd (y - L) = Fin w" "0 \<le> w" "w \<le> L - 1"
      using rd_between [of 0 "y - L" "L - 1"] dL1 True y by auto
    obtain v where v: "rd (1 + w) = Fin v" "1 \<le> v" "v \<le> L"
      using rd_between [of 1 "1 + w" L] d(2) w by auto
    show ?thesis using True unfolding z' by (simp add: Double_le Double_minus Double_plus w v)
  next
    case False
    then show ?thesis using y r unfolding z' by (simp add: Double_le)
  qed
qed

lemma tick_constant_out:
  assumes d: "finite_double z" "finite_double L" "finite_double c"
    and r: "1 \<le> z" "z < L" "L < 2 ^ 52" "0 \<le> c" "c \<le> 1"
  defines "z' \<equiv> Double (Fin z) - Double (Fin c) * (Double (Fin L) - Double (Fin 1))"
  shows "Double (Fin 1) \<le> (if z' < Double (Fin 1) then Double (Fin L) - (Double (Fin 1) - z') else z')
       \<and> (if z' < Double (Fin 1) then Double (Fin L) - (Double (Fin 1) - z') else z') \<le> Double (Fin L)"
proof -
  have L1: "1 \<le> L" using r by simp
  have dL1: "finite_double (L - 1)" using d(2) L1 r(3) by (rule double_minus_1)
  have d2L: "finite_double (2 - L)" using d(2) L1 r(3) by (rule double_2_minus)
  have e1: "Double (Fin L) - Double (Fin 1) = Double (Fin (L - 1))"
    using dL1 by (simp add: Double_minus finite_double_def)
  obtain i where i: "rd (c * (L - 1)) = Fin i" "0 \<le> i" "i \<le> L - 1" "finite_double i"
    using rd_between [of 0 "c * (L - 1)" "L - 1"] dL1 r L1
    by (auto simp: mult_left_le_one_le)
  obtain y where y: "rd (z - i) = Fin y" "2 - L \<le> y" "y \<le> z" "finite_double y"
    using rd_between [of "2 - L" "z - i" z] d(1) d2L i r by auto
  have z': "z' = Double (Fin y)"
    unfolding z'_def e1 Double_times i(1) by (simp add: Double_minus y(1))
  show ?thesis
  proof (cases "y < 1")
    case True
    obtain w where w: "rd (1 - y) = Fin w" "0 \<le> w" "w \<le> L - 1"
      using rd_between [of 0 "1 - y" "L - 1"] dL1 True y by auto
    obtain v where v: "rd (L - w) = Fin v" "1 \<le> v" "v \<le> L"
      using rd_between [of 1 "L - w" L] d(2) w by auto
    show ?thesis using True unfolding z' by (simp add: Double_le Double_less Double_minus w v)
  next
    case False
    then show ?thesis using y r unfolding z' by (simp add: Double_le Double_less)
  qed
qed

lemma tick_multiplicative_in:
  assumes d: "finite_double z" "finite_double L" "finite_double c"
    and r: "1 \<le> z" "z < L" "L < 2 ^ 52" "1 \<le> c" "c \<le> L"
  defines "z' \<equiv> Double (Fin z) * Double (Fin c)"
  shows "Double (Fin 1) \<le> (if Double (Fin L) \<le> z' then z' / Double (Fin L) else z')
       \<and> (if Double (Fin L) \<le> z' then z' / Double (Fin L) else z') \<le> Double (Fin L)"
proof -
  have L1: "1 \<le> L" "L \<noteq> 0" "0 < L" using r by simp_all
  have zc: "z \<le> z * c" "z * c \<le> z * L" using r by (simp_all add: mult_left_mono)
  have "nearest (z * c) \<le> nearest (z * L)" using zc(2) by (rule nearest_mono)
  also have "\<dots> \<le> L * L" using d(1,2) r(1-3) by (rule product_below)
  finally have up: "nearest (z * c) \<le> L * L" .
  have "nearest z \<le> nearest (z * c)" using zc(1) by (rule nearest_mono)
  then have lo: "z \<le> nearest (z * c)" using finite_double_nearest [OF d(1)] by simp
  have "L * L \<le> 2 ^ 52 * 2 ^ 52" using r(3) L1 by (intro mult_mono) simp_all
  then have "\<bar>nearest (z * c)\<bar> \<le> 2 ^ 104" using up lo r(1) by simp
  then have "\<bar>nearest (z * c)\<bar> < huge" by (rule less_huge) simp
  then have y: "rd (z * c) = Fin (nearest (z * c))" using rd_cases [of "z * c"] by auto
  define y where "y = nearest (z * c)"
  have z': "z' = Double (Fin y)" unfolding z'_def Double_times y y_def ..
  show ?thesis
  proof (cases "L \<le> y")
    case True
    have "1 \<le> y / L" "y / L \<le> L" using True up L1 unfolding y_def by (simp_all add: field_simps)
    then obtain v where v: "rd (y / L) = Fin v" "1 \<le> v" "v \<le> L"
      using rd_between [of 1 "y / L" L] d(2) by auto
    show ?thesis using True L1 unfolding z' by (simp add: Double_le Double_divide v)
  next
    case False
    then show ?thesis using lo r unfolding z' y_def by (simp add: Double_le)
  qed
qed

lemma tick_multiplicative_out:
  assumes d: "finite_double z" "finite_double L" "finite_double c"
    and r: "1 \<le> z" "z < L" "L < 2 ^ 52" "1 \<le> c" "c \<le> L"
  defines "z' \<equiv> Double (Fin z) / Double (Fin c)"
  shows "Double (Fin (1 - 1 / 2 ^ 53)) \<le> (if z' < Double (Fin 1) then z' * Double (Fin L) else z')
       \<and> (if z' < Double (Fin 1) then z' * Double (Fin L) else z') \<le> Double (Fin L)"
proof -
  have L1: "1 \<le> L" "L \<noteq> 0" "0 < L" "c \<noteq> 0" "0 < c" using r by simp_all
  have il: "1 / L \<le> z / c" using r L1 by (simp add: frac_le)
  have zc: "z / c \<le> z" using r L1 by (simp add: field_simps)
  have "nearest (z / c) \<le> nearest z" using zc by (rule nearest_mono)
  then have up: "nearest (z / c) \<le> z" using finite_double_nearest [OF d(1)] by simp
  have small: "1 / 2 ^ 1022 \<le> \<bar>1 / L\<bar>"
  proof -
    have "L \<le> 2 ^ 1022" using r(3) power_increasing [of 52 1022 "2::real"] by simp
    then show ?thesis using L1 by (simp add: field_simps)
  qed
  have "\<bar>nearest (1 / L) - 1 / L\<bar> \<le> \<bar>1 / L\<bar> / 2 ^ 53" using small by (rule nearest_rel_err)
  then have "1 / L - (1 / L) / 2 ^ 53 \<le> nearest (1 / L)" using L1 by (simp add: abs_le_iff)
  moreover have "nearest (1 / L) \<le> nearest (z / c)" using il by (rule nearest_mono)
  ultimately have lo: "(1 - 1 / 2 ^ 53) / L \<le> nearest (z / c)" by (simp add: field_simps)
  have lo0: "0 \<le> nearest (z / c)" using r L1 by (intro nearest_nonneg) simp
  have "\<bar>nearest (z / c)\<bar> \<le> 2 ^ 52" using up lo0 r by simp
  then have "\<bar>nearest (z / c)\<bar> < huge" by (rule less_huge) simp
  then have y: "rd (z / c) = Fin (nearest (z / c))" using rd_cases [of "z / c"] by auto
  define y where "y = nearest (z / c)"
  have z': "z' = Double (Fin y)" unfolding z'_def Double_divide [OF L1(4)] y y_def ..
  show ?thesis
  proof (cases "y < 1")
    case True
    have "1 - 1 / 2 ^ 53 \<le> y * L" using lo L1 unfolding y_def by (simp add: field_simps)
    moreover have "y * L \<le> L" using True L1 by simp
    ultimately obtain v where v: "rd (y * L) = Fin v" "1 - 1 / 2 ^ 53 \<le> v" "v \<le> L"
      using rd_between [of "1 - 1 / 2 ^ 53" "y * L" L] d(2) finite_double_pred_1 by auto
    have "(if z' < Double (Fin 1) then z' * Double (Fin L) else z') = Double (Fin v)"
      using True unfolding z' by (simp add: Double_less Double_times v(1))
    then show ?thesis using v(2,3) by (simp only: Double_le less_eq_number.simps)
  next
    case False
    have "(if z' < Double (Fin 1) then z' * Double (Fin L) else z') = Double (Fin y)"
      using False unfolding z' by (simp add: Double_less)
    moreover have "1 - 1 / 2 ^ 53 \<le> y" using False by simp
    moreover have "y \<le> L" using up r unfolding y_def by simp
    ultimately show ?thesis by (simp only: Double_le less_eq_number.simps)
  qed
qed

lemma tick_idle:
  "direction = STOP \<or> isExporting \<or> \<not> imageLoaded \<Longrightarrow>
   tick isExporting imageLoaded constantSpeed direction speed dt limit zoomLevel = zoomLevel"
  by (auto simp: tick_def)

text \<open>
  Claim C7, as amended.  For finite doubles \<open>zoomLevel\<close>, \<open>limit\<close>, \<open>speed\<close> and \<open>dt\<close> with
  \<open>dt \<ge> 0\<close>, \<open>speed > 0\<close>, \<open>1 < limit < 2^52\<close> and \<open>zoomLevel \<in> [1, limit)\<close>, and a step
  within one loop, as the tick computes it (\<open>speed * dt * 0.5 \<le> 1\<close> in the constant-speed
  mode, \<open>1 + speed * dt \<le> limit\<close> in the multiplicative mode), the zoom level after the tick
  is at most \<open>limit\<close> and at least \<open>1 - 2^(- 53)\<close>, the double below 1; it is at least 1 in the
  constant-speed mode and when zooming in.  (The source wraps once per tick, and the wrap
  itself rounds.)
\<close>

theorem tick_preserves_range:
  assumes "finite_double z" "finite_double L" "finite_double s" "finite_double t"
    and "0 \<le> t" "0 < s" "1 < L" "L < 2 ^ 52" "1 \<le> z" "z < L"
    and "constantSpeed \<longrightarrow> dbl s * dbl t * dbl (5 / 10) \<le> dbl 1"
    and "\<not> constantSpeed \<longrightarrow> dbl 1 + dbl s * dbl t \<le> dbl L"
  shows "dbl (1 - 1 / 2 ^ 53)
           \<le> tick isExporting imageLoaded constantSpeed direction (dbl s) (dbl t) (dbl L) (dbl z)
       \<and> tick isExporting imageLoaded constantSpeed direction (dbl s) (dbl t) (dbl L) (dbl z) \<le> dbl L
       \<and> (constantSpeed \<or> direction \<noteq> OUT \<longrightarrow>
            dbl 1 \<le> tick isExporting imageLoaded constantSpeed direction (dbl s) (dbl t) (dbl L) (dbl z))"
proof -
  have st: "0 \<le> s * t" using assms(5,6) by simp
  have o: "dbl 1 = Double (Fin 1)" by (simp add: dbl_finite)
  have l: "dbl L = Double (Fin L)" using assms(2) by (simp add: dbl_finite)
  have zz: "dbl z = Double (Fin z)" using assms(1) by (simp add: dbl_finite)
  have p: "dbl (1 - 1 / 2 ^ 53) = Double (Fin (1 - 1 / 2 ^ 53))"
    using finite_double_pred_1 by (rule dbl_finite)
  have p1: "Double (Fin (1 - 1 / 2 ^ 53)) \<le> Double (Fin 1)" by (simp add: Double_le)
  have w: "Double (Fin (1 - 1 / 2 ^ 53)) \<le> u" if "Double (Fin 1) \<le> u" for u
  proof (cases u)
    case (Double v)
    then show ?thesis using that by (cases v) (simp_all add: Double_le)
  qed
  define r where
    "r = tick isExporting imageLoaded constantSpeed direction (dbl s) (dbl t) (dbl L) (dbl z)"
  consider (idle) "direction = STOP \<or> isExporting \<or> \<not> imageLoaded"
    | (ci) "direction = IN" "\<not> isExporting" "imageLoaded" "constantSpeed"
    | (co) "direction = OUT" "\<not> isExporting" "imageLoaded" "constantSpeed"
    | (mi) "direction = IN" "\<not> isExporting" "imageLoaded" "\<not> constantSpeed"
    | (mo) "direction = OUT" "\<not> isExporting" "imageLoaded" "\<not> constantSpeed"
    by (cases direction) auto
  then have "Double (Fin (1 - 1 / 2 ^ 53)) \<le> r \<and> r \<le> Double (Fin L)
       \<and> (constantSpeed \<or> direction \<noteq> OUT \<longrightarrow> Double (Fin 1) \<le> r)"
  proof cases
    case idle
    have "r = Double (Fin z)" unfolding r_def tick_idle [OF idle] zz ..
    moreover have "Double (Fin 1) \<le> Double (Fin z)" "Double (Fin z) \<le> Double (Fin L)"
      using assms(9,10) by (simp_all add: Double_le)
    ultimately show ?thesis using w [of r] by simp
  next
    case ci
    obtain c where c: "dbl s * dbl t * dbl (5 / 10) = Double (Fin c)" "0 \<le> c" "c \<le> 1"
      "finite_double c"
      using st assms(11) ci(4) assms(3,4) by (blast intro: constant_step)
    have e: "r = (if Double (Fin L)
              \<le> Double (Fin z) + Double (Fin c) * (Double (Fin L) - Double (Fin 1))
         then Double (Fin 1)
              + (Double (Fin z) + Double (Fin c) * (Double (Fin L) - Double (Fin 1)) - Double (Fin L))
         else Double (Fin z) + Double (Fin c) * (Double (Fin L) - Double (Fin 1)))"
      unfolding r_def tick_def Let_def c(1) o l zz
      using ci by (simp only: if_True if_False simp_thms AnimationDirection.distinct)
    have "Double (Fin 1) \<le> r \<and> r \<le> Double (Fin L)"
      unfolding e by (rule tick_constant_in [OF assms(1,2) c(4) assms(9,10,8) c(2,3)])
    then show ?thesis using w [of r] by simp
  next
    case co
    obtain c where c: "dbl s * dbl t * dbl (5 / 10) = Double (Fin c)" "0 \<le> c" "c \<le> 1"
      "finite_double c"
      using st assms(11) co(4) assms(3,4) by (blast intro: constant_step)
    have e: "r = (if Double (Fin z) - Double (Fin c) * (Double (Fin L) - Double (Fin 1)) < Double (Fin 1)
         then Double (Fin L)
              - (Double (Fin 1) - (Double (Fin z) - Double (Fin c) * (Double (Fin L) - Double (Fin 1))))
         else Double (Fin z) - Double (Fin c) * (Double (Fin L) - Double (Fin 1)))"
      unfolding r_def tick_def Let_def c(1) o l zz
      using co by (simp only: if_True if_False simp_thms AnimationDirection.distinct)
    have "Double (Fin 1) \<le> r \<and> r \<le> Double (Fin L)"
      unfolding e by (rule tick_constant_out [OF assms(1,2) c(4) assms(9,10,8) c(2,3)])
    then show ?thesis using w [of r] by simp
  next
    case mi
    obtain c where c: "dbl 1 + dbl s * dbl t = Double (Fin c)" "1 \<le> c" "c \<le> L"
      "finite_double c"
      using st assms(12) mi(4) assms(3,4,2) by (blast intro: multiplicative_step)
    have e: "r = (if Double (Fin L) \<le> Double (Fin z) * Double (Fin c)
         then Double (Fin z) * Double (Fin c) / Double (Fin L)
         else Double (Fin z) * Double (Fin c))"
      unfolding r_def tick_def Let_def o l zz c(1) [unfolded o]
      using mi by (simp only: if_True if_False simp_thms AnimationDirection.distinct)
    have "Double (Fin 1) \<le> r \<and> r \<le> Double (Fin L)"
      unfolding e by (rule tick_multiplicative_in [OF assms(1,2) c(4) assms(9,10,8) c(2,3)])
    then show ?thesis using w [of r] by simp
  next
    case mo
    obtain c where c: "dbl 1 + dbl s * dbl t = Double (Fin c)" "1 \<le> c" "c \<le> L"
      "finite_double c"
      using st assms(12) mo(4) assms(3,4,2) by (blast intro: multiplicative_step)
    have e: "r = (if Double (Fin z) / Double (Fin c) < Double (Fin 1)
         then Double (Fin z) / Double (Fin c) * Double (Fin L)
         else Double (Fin z) / Double (Fin c))"
      unfolding r_def tick_def Let_def o l zz c(1) [unfolded o]
      using mo by (simp only: if_True if_False simp_thms AnimationDirection.distinct)
    have "Double (Fin (1 - 1 / 2 ^ 53)) \<le> r \<and> r \<le> Double (Fin L)"
      unfolding e by (rule tick_multiplicative_out [OF assms(1,2) c(4) assms(9,10,8) c(2,3)])
    then show ?thesis using mo by simp
  qed
  then show ?thesis unfolding r_def o l p .
qed

text \<open>The doubles and the rounded values of the examples below.\<close>

lemma rd_1: "rd 1 = Fin 1"
  by (rule rd_exact [of _ 1 0]) (simp_all add: rd_eval_simps)

lemma rd_2: "rd 2 = Fin 2"
  by (rule rd_exact [of _ 1 1]) (simp_all add: rd_eval_simps)

lemma rd_3: "rd 3 = Fin 3"
  by (rule rd_exact [of _ 3 0]) (simp_all add: rd_eval_simps)

lemma rd_4: "rd 4 = Fin 4"
  by (rule rd_exact [of _ 1 2]) (simp_all add: rd_eval_simps)

lemma rd_6: "rd 6 = Fin 6"
  by (rule rd_exact [of _ 3 1]) (simp_all add: rd_eval_simps)

lemma rd_48: "rd 48 = Fin 48"
  by (rule rd_exact [of _ 3 4]) (simp_all add: rd_eval_simps)

lemma rd_49: "rd 49 = Fin 49"
  by (rule rd_exact [of _ 49 0]) (simp_all add: rd_eval_simps)

lemma rd_half: "rd (1 / 2) = Fin (1 / 2)"
  by (rule rd_exact [of _ 1 "- 1"]) (simp_all add: rd_eval_simps)

lemma rd_3_2: "rd (3 / 2) = Fin (3 / 2)"
  by (rule rd_exact [of _ 3 "- 1"]) (simp_all add: rd_eval_simps)

lemma rd_1_64: "rd (1 / 64) = Fin (1 / 64)"
  by (rule rd_exact [of _ 1 "- 6"]) (simp_all add: rd_eval_simps)

lemma rd_65_64: "rd (65 / 64) = Fin (65 / 64)"
  by (rule rd_exact [of _ 65 "- 6"]) (simp_all add: rd_eval_simps)

lemma rd_below_2: "rd (9007199254740991 / 4503599627370496) = Fin (9007199254740991 / 4503599627370496)"
  by (rule rd_exact [of _ 9007199254740991 "- 52"]) (simp_all add: rd_eval_simps)

lemma rd_below_3: "rd (13510798882111487 / 4503599627370496) = Fin 3"
  by (rule rd_eval [of 1 _ 6755399441055744]) (simp_all add: rd_eval_simps)

lemma rd_1_49: "rd (1 / 49) = Fin (5882252574524729 / 288230376151711744)"
  by (rule rd_eval [of "- 6" _ 5882252574524729]) (simp_all add: rd_eval_simps)

lemma rd_49_49: "rd (288230376151711721 / 288230376151711744) = Fin (9007199254740991 / 9007199254740992)"
  by (rule rd_eval [of "- 1" _ 9007199254740991]) (simp_all add: rd_eval_simps)

lemma rd_below_1: "rd (9007199254740991 / 9007199254740992) = Fin (9007199254740991 / 9007199254740992)"
  by (rule rd_exact [of _ 9007199254740991 "- 53"]) (simp_all add: rd_eval_simps)

lemmas rd_values =
  rd_1 rd_2 rd_3 rd_4 rd_6 rd_48 rd_49 rd_half rd_3_2 rd_1_64 rd_65_64 rd_below_2 rd_below_3
  rd_1_49 rd_49_49 rd_below_1

theorem tick_preserves_range_witness:
  "dbl 1 + dbl 1 * dbl (1 / 64) \<le> dbl 2
   \<and> dbl (1 - 1 / 2 ^ 53) \<le> tick False True False OUT (dbl 1) (dbl (1 / 64)) (dbl 2) (dbl (3 / 2))
   \<and> tick False True False OUT (dbl 1) (dbl (1 / 64)) (dbl 2) (dbl (3 / 2)) \<le> dbl 2"
proof -
  have d: "finite_double (3 / 2)" "finite_double 2" "finite_double 1" "finite_double (1 / 64)"
    by (simp_all add: finite_double_def rd_values)
  have s: "dbl 1 + dbl 1 * dbl (1 / 64) \<le> dbl 2"
    by (simp add: double_eval rd_values)
  show ?thesis
    using tick_preserves_range [where constantSpeed = False and direction = OUT
        and isExporting = False and imageLoaded = True, OF d] s
    by simp
qed

text \<open>
  The claim as stated fails.  For a long tick: in the constant-speed mode, zooming in at
  speed 1 with loop scale 2, a tick of 6 seconds takes the zoom level 1 to 3.  And by
  rounding, for a step within its bound: in the same mode a tick of 2 seconds takes the
  double below 2 to 2, the loop scale itself; in the multiplicative mode, zooming out
  with loop scale 49, a tick of 48 seconds takes the zoom level 1 to the double below 1.
\<close>

theorem tick_leaves_range_counterexample:
  "tick False True True IN (dbl 1) (dbl 6) (dbl 2) (dbl 1) = dbl 3 \<and> \<not> dbl 3 < dbl 2
   \<and> dbl 1 * dbl 2 * dbl (5 / 10) \<le> dbl 1
   \<and> dbl 1 \<le> dbl (9007199254740991 / 4503599627370496)
   \<and> dbl (9007199254740991 / 4503599627370496) < dbl 2
   \<and> tick False True True IN (dbl 1) (dbl 2) (dbl 2) (dbl (9007199254740991 / 4503599627370496)) = dbl 2
   \<and> dbl 1 + dbl 1 * dbl 48 \<le> dbl 49
   \<and> tick False True False OUT (dbl 1) (dbl 48) (dbl 49) (dbl 1)
       = dbl (9007199254740991 / 9007199254740992)
   \<and> dbl (9007199254740991 / 9007199254740992) < dbl 1"
  by (simp add: tick_def double_eval rd_values)

section \<open>The culling test\<close>

text \<open>
  Claim C9.  The test of the source is not a test of the centroid.  For the viewport
  rectangle \<open>(-50, -50, 1100, 1100)\<close> and a cell with projected corners \<open>(300, 300)\<close>,
  \<open>(40000, 300)\<close>, \<open>(300, 40000)\<close>, \<open>(40000, 40000)\<close>, the centre the source computes is
  \<open>(100, 100)\<close>, a third of the first corner; the cell is not culled and both triangles
  are drawn, although the centroid of the four corners, \<open>(20150, 20150)\<close>, and the
  centroid of the three corners the expression names are more than 5000 units outside
  the rectangle.
\<close>

theorem cell_cull_not_centroid:
  "\<not> cellCulled \<lparr>cr_x = Fin (- 50), cr_y = Fin (- 50), cr_w = Fin 1100, cr_h = Fin 1100\<rparr>
       (Some (FPoint 300 300)) (Some (FPoint 40000 300)) (Some (FPoint 300 40000))
   \<and> drawCell \<lparr>cr_x = Fin (- 50), cr_y = Fin (- 50), cr_w = Fin 1100, cr_h = Fin 1100\<rparr>
        (Some (FPoint 300 300)) (Some (FPoint 40000 300)) (Some (FPoint 300 40000))
        (Some (FPoint 40000 40000))
      = [(FPoint 300 300, FPoint 40000 300, FPoint 300 40000),
         (FPoint 40000 300, FPoint 40000 40000, FPoint 300 40000)]
   \<and> cell_cx (Some (FPoint 300 300)) (Some (FPoint 40000 300)) (Some (FPoint 300 40000)) = Fin 100
   \<and> cell_cy (Some (FPoint 300 300)) (Some (FPoint 40000 300)) (Some (FPoint 300 40000)) = Fin 100
   \<and> centroid_x [FPoint 300 300, FPoint 40000 300, FPoint 300 40000, FPoint 40000 40000] = Fin 20150
   \<and> centroid_y [FPoint 300 300, FPoint 40000 300, FPoint 300 40000, FPoint 40000 40000] = Fin 20150
   \<and> outside \<lparr>cr_x = Fin (- 50), cr_y = Fin (- 50), cr_w = Fin 1100, cr_h = Fin 1100\<rparr>
        (centroid_x [FPoint 300 300, FPoint 40000 300, FPoint 300 40000, FPoint 40000 40000])
        (centroid_y [FPoint 300 300, FPoint 40000 300, FPoint 300 40000, FPoint 40000 40000])
   \<and> outside \<lparr>cr_x = Fin (- 50), cr_y = Fin (- 50), cr_w = Fin 1100, cr_h = Fin 1100\<rparr>
        (centroid_x [FPoint 300 300, FPoint 40000 300, FPoint 300 40000])
        (centroid_y [FPoint 300 300, FPoint 40000 300, FPoint 300 40000])"
  by (simp add: cellCulled_def drawCell_def cell_cx_def cell_cy_def outside_def FPoint_def
      opt_x_def opt_y_def or_num_def centroid_x_def centroid_y_def)

section \<open>The branches of the matrix power\<close>

lemma Math_min_Fin [simp]: "Math_min (Fin x) (Fin y) = Fin (min x y)"
  by (simp add: min_def)

lemma Math_max_Fin [simp]: "Math_max (Fin x) (Fin y) = Fin (max x y)"
  by (simp add: max_def)


























section \<open>The semigroup law of the matrix power\<close>




















end
